theory Spec2Isabelle
  imports Main
begin

section \<open>Linear data model\<close>

text \<open>
  Attribute values are dynamically typed in the source (``Mixed''); \<open>AUndefined\<close> is
  JavaScript's \<open>undefined\<close>, which is also what reading a missing key yields, and
  \<open>AOther\<close> names any value that is not a primitive (an object, or a function such as
  \<open>Object\<close>).
\<close>

datatype attr_value = AUndefined | AString string | ANumber int | ABool bool | AOther string

text \<open>
  An attributes object: its own properties, and the properties it inherits through its
  prototype chain, each in lookup order. Reading \<open>attributes[key]\<close> finds an own property
  first, then an inherited one, and yields \<open>undefined\<close> when there is neither.
\<close>

record js_object =
  own :: "(string \<times> attr_value) list"
  inherited :: "(string \<times> attr_value) list"

definition get_property :: "js_object \<Rightarrow> string \<Rightarrow> attr_value" where
  "get_property obj key =
     (case map_of (own obj) key of
        Some v \<Rightarrow> v
      | None \<Rightarrow> (case map_of (inherited obj) key of Some v \<Rightarrow> v | None \<Rightarrow> AUndefined))"

datatype annotation = Annotation (atype: string)

text \<open>
  One item of the linear data: a content item (a character with the annotations it
  carries) or an element marker \<open>{type, attributes?}\<close>. A closing marker has a type that
  starts with a slash. \<open>Undefined\<close> is what an out-of-range read of a JavaScript
  array yields.
\<close>

datatype item =
    Undefined
  | Content string "annotation list"
  | Element string "js_object option"

definition at :: "item list \<Rightarrow> int \<Rightarrow> item" where
  "at data i = (if 0 \<le> i \<and> i < int (length data) then data ! nat i else Undefined)"

text \<open>\<open>Array.prototype.slice(start, end)\<close> on integer arguments: a negative index counts
  from the end, both are clamped to the array.\<close>

definition slice :: "'a list \<Rightarrow> int \<Rightarrow> int \<Rightarrow> 'a list" where
  "slice xs s e =
     (let len = int (length xs);
          k = (if s < 0 then max (len + s) 0 else min s len);
          final = (if e < 0 then max (len + e) 0 else min e len)
      in take (nat (final - k)) (drop (nat k) xs))"

section \<open>Transactions\<close>

datatype bias = Start | Stop

datatype operation =
    Retain int
  | Replace "item list" "item list"
  | Attribute string attr_value attr_value
  | Annotate string bias annotation

record transaction =
  operations :: "operation list"
  lengthDifference :: int

datatype error =
    InvalidRetain int
  | InvalidRange int int
  | NotAnElement
  | ClosingElement
  | TypeError

definition new_transaction :: transaction where
  "new_transaction = \<lparr>operations = [], lengthDifference = 0\<rparr>"

fun is_retain :: "operation \<Rightarrow> bool" where
  "is_retain (Retain n) = True"
| "is_retain _ = False"

fun add_length :: "operation \<Rightarrow> int \<Rightarrow> operation" where
  "add_length (Retain l) n = Retain (l + n)"
| "add_length x n = x"

text \<open>A thrown exception ends the sequence of statements.\<close>

definition bind :: "error + 'a \<Rightarrow> ('a \<Rightarrow> error + 'b) \<Rightarrow> error + 'b" where
  "bind m f = (case m of Inl err \<Rightarrow> Inl err | Inr x \<Rightarrow> f x)"

definition pushRetain :: "transaction \<Rightarrow> int \<Rightarrow> error + transaction" where
  "pushRetain tx len =
     (if len < 0 then Inl (InvalidRetain len)
      else if len \<noteq> 0 then
        (if operations tx \<noteq> [] \<and> is_retain (last (operations tx))
         then Inr (tx\<lparr>operations := butlast (operations tx) @ [add_length (last (operations tx)) len]\<rparr>)
         else Inr (tx\<lparr>operations := operations tx @ [Retain len]\<rparr>))
      else Inr tx)"

definition pushReplace :: "transaction \<Rightarrow> item list \<Rightarrow> item list \<Rightarrow> transaction" where
  "pushReplace tx rem ins =
     (if length rem = 0 \<and> length ins = 0 then tx
      else tx\<lparr>operations := operations tx @ [Replace rem ins],
              lengthDifference := lengthDifference tx + (int (length ins) - int (length rem))\<rparr>)"

definition pushReplaceElementAttribute ::
  "transaction \<Rightarrow> string \<Rightarrow> attr_value \<Rightarrow> attr_value \<Rightarrow> transaction" where
  "pushReplaceElementAttribute tx key from to =
     tx\<lparr>operations := operations tx @ [Attribute key from to]\<rparr>"

definition pushStartAnnotating :: "transaction \<Rightarrow> string \<Rightarrow> annotation \<Rightarrow> transaction" where
  "pushStartAnnotating tx meth ann = tx\<lparr>operations := operations tx @ [Annotate meth Start ann]\<rparr>"

definition pushStopAnnotating :: "transaction \<Rightarrow> string \<Rightarrow> annotation \<Rightarrow> transaction" where
  "pushStopAnnotating tx meth ann = tx\<lparr>operations := operations tx @ [Annotate meth Stop ann]\<rparr>"

section \<open>Documents\<close>

text \<open>
  Modelled from the spec: \<open>ve.Range\<close> is not in the sources. A range is a pair of
  offsets \<open>{start, end}\<close>, not required to satisfy \<open>start \<le> end\<close> until
  \<open>normalize()\<close> is called, which swaps them if needed.
\<close>

record ve_range =
  start :: int
  endpos :: int

definition normalize_range :: "ve_range \<Rightarrow> ve_range" where
  "normalize_range r = (if endpos r < start r then \<lparr>start = endpos r, endpos = start r\<rparr> else r)"

text \<open>
  The node tree is not in the sources either. A node is given by what the builders ask of
  it: its identity (the builders compare nodes with \<open>===\<close>), \<open>isContent()\<close>,
  \<open>getParent()\<close> (null at the root), \<open>getOuterRange()\<close> and \<open>getLength()\<close>.
\<close>

datatype node =
  Node (node_id: nat) (isContent: bool) (getParent: "node option")
       (getOuterRange: ve_range) (getLength: int)

text \<open>One entry of the array that \<open>selectNodes\<close> returns; \<open>range\<close> is absent on a node
  that is covered completely.\<close>

record selected =
  node :: node
  range_s :: "ve_range option"
  nodeRange :: ve_range
  nodeOuterRange :: ve_range

datatype mode = Leaves | Covered

text \<open>
  The document as the builders see it. \<open>getData\<close> is the linear data; \<open>selectNodes\<close>,
  \<open>fixupInsertion\<close>, \<open>offsetContainsAnnotation\<close> and the nodes' \<open>canBeMergedWith\<close>
  are defined outside the sources and are parameters here.
\<close>

record doc =
  getData :: "item list"
  selectNodes :: "ve_range \<Rightarrow> mode \<Rightarrow> selected list"
  fixupInsertion :: "item list \<Rightarrow> int \<Rightarrow> item list"
  offsetContainsAnnotation :: "int \<Rightarrow> annotation \<Rightarrow> bool"
  canBeMergedWith :: "node \<Rightarrow> node \<Rightarrow> bool"

section \<open>Static builders\<close>

definition newFromInsertion :: "doc \<Rightarrow> int \<Rightarrow> item list \<Rightarrow> error + transaction" where
  "newFromInsertion d offset insertion =
     (let tx = new_transaction;
          data = getData d;
          insertion' = fixupInsertion d insertion offset
      in bind (pushRetain tx offset) (\<lambda>tx.
         pushRetain (pushReplace tx [] insertion') (int (length data) - offset)))"

text \<open>The range an entry contributes to the removal: the outer range of a node that is
  covered completely, the covered part of the others.\<close>

definition removal_span :: "selected \<Rightarrow> int \<times> int" where
  "removal_span s =
     (case range_s s of
        None \<Rightarrow> (start (nodeOuterRange s), endpos (nodeOuterRange s))
      | Some r \<Rightarrow> (start r, endpos r))"

text \<open>
  The \<open>for\<close> loop of \<open>newFromRemoval\<close>. Its state is the transaction, \<open>offset\<close> and the
  pending removal \<open>removeStart\<close>, \<open>removeEnd\<close>, which are null together before the
  first entry (\<open>None\<close>) and set together afterwards.
\<close>

fun removal_loop ::
  "item list \<Rightarrow> selected list \<Rightarrow> transaction \<Rightarrow> int \<Rightarrow> (int \<times> int) option
     \<Rightarrow> error + (transaction \<times> int \<times> (int \<times> int) option)" where
  "removal_loop data [] tx offset pending = Inr (tx, offset, pending)"
| "removal_loop data (s # rest) tx offset pending =
     (let (nodeStart, nodeEnd) = removal_span s in
      case pending of
        None \<Rightarrow> removal_loop data rest tx offset (Some (nodeStart, nodeEnd))
      | Some (removeStart, removeEnd) \<Rightarrow>
          if removeEnd = nodeStart
          then removal_loop data rest tx offset (Some (removeStart, nodeEnd))
          else (case pushRetain tx (removeStart - offset) of
                  Inl err \<Rightarrow> Inl err
                | Inr tx1 \<Rightarrow>
                    removal_loop data rest
                      (pushReplace tx1 (slice data removeStart removeEnd) [])
                      removeEnd (Some (nodeStart, nodeEnd))))"

text \<open>After the loop: apply the last removal, if any, and retain up to the end of the
  document.\<close>

definition removal_finish ::
  "item list \<Rightarrow> transaction \<times> int \<times> (int \<times> int) option \<Rightarrow> error + transaction" where
  "removal_finish data st =
     (case st of (tx, offset, pending) \<Rightarrow>
        bind (case pending of
                None \<Rightarrow> Inr (tx, offset)
              | Some (removeStart, removeEnd) \<Rightarrow>
                  bind (pushRetain tx (removeStart - offset)) (\<lambda>tx.
                  Inr (pushReplace tx (slice data removeStart removeEnd) [], removeEnd)))
          (\<lambda>(tx, offset). pushRetain tx (int (length data) - offset)))"

definition merge_span :: "selected \<Rightarrow> selected \<Rightarrow> int \<times> int" where
  "merge_span first lst =
     (if range_s first = None \<and> range_s lst = None
      then (start (nodeOuterRange first), endpos (nodeOuterRange lst))
      else (start (case range_s first of Some r \<Rightarrow> r | None \<Rightarrow> nodeRange first),
            endpos (case range_s lst of Some r \<Rightarrow> r | None \<Rightarrow> nodeRange lst)))"

definition newFromRemoval :: "doc \<Rightarrow> ve_range \<Rightarrow> error + transaction" where
  "newFromRemoval d range0 =
     (let tx = new_transaction;
          data = getData d;
          rng = normalize_range range0
      in if start rng = endpos rng then pushRetain tx (int (length data))
         else
           let selection = selectNodes d rng Covered in
           if length selection = 0 then Inl (InvalidRange (start rng) (endpos rng))
           else
             let first = hd selection; lst = last selection in
             if canBeMergedWith d (node first) (node lst) then
               (let (removeStart, removeEnd) = merge_span first lst in
                bind (pushRetain tx removeStart) (\<lambda>tx.
                pushRetain (pushReplace tx (slice data removeStart removeEnd) [])
                  (int (length data) - removeEnd)))
             else bind (removal_loop data selection tx 0 None) (removal_finish data))"

text \<open>\<open>'attributes' in data[offset] ? data[offset].attributes[key] : undefined\<close>; the
  attributes of an element, when it has any, are an object.\<close>

definition attribute_of :: "js_object option \<Rightarrow> string \<Rightarrow> attr_value" where
  "attribute_of attrs key =
     (case attrs of
        None \<Rightarrow> AUndefined
      | Some obj \<Rightarrow> get_property obj key)"

definition is_closing :: "string \<Rightarrow> bool" where
  "is_closing ty = (case ty of [] \<Rightarrow> False | c # _ \<Rightarrow> c = CHR ''/'')"

definition newFromAttributeChange ::
  "doc \<Rightarrow> int \<Rightarrow> string \<Rightarrow> attr_value \<Rightarrow> error + transaction" where
  "newFromAttributeChange d offset key val =
     (let tx = new_transaction;
          data = getData d
      in case at data offset of
           Undefined \<Rightarrow> Inl TypeError
         | Content c anns \<Rightarrow> Inl NotAnElement
         | Element ty attrs \<Rightarrow>
             if is_closing ty then Inl ClosingElement
             else bind (pushRetain tx offset) (\<lambda>tx.
                  pushRetain (pushReplaceElementAttribute tx key (attribute_of attrs key) val)
                    (int (length data) - offset)))"

text \<open>The body of the \<open>while\<close> loop of \<open>newFromAnnotation\<close> at offset \<open>i\<close>, on the
  state \<open>(tx, span, on)\<close>.\<close>

definition close_span ::
  "string \<Rightarrow> annotation \<Rightarrow> transaction \<times> int \<times> bool \<Rightarrow> error + (transaction \<times> int \<times> bool)" where
  "close_span meth ann st =
     (case st of (tx, span, on) \<Rightarrow>
        if on then bind (pushRetain tx span) (\<lambda>tx. Inr (pushStopAnnotating tx meth ann, 0, False))
        else Inr (tx, span, on))"

definition open_span ::
  "string \<Rightarrow> annotation \<Rightarrow> transaction \<times> int \<times> bool \<Rightarrow> error + (transaction \<times> int \<times> bool)" where
  "open_span meth ann st =
     (case st of (tx, span, on) \<Rightarrow>
        if \<not> on then bind (pushRetain tx span) (\<lambda>tx. Inr (pushStartAnnotating tx meth ann, 0, True))
        else Inr (tx, span, on))"

definition annotation_step ::
  "doc \<Rightarrow> string \<Rightarrow> annotation \<Rightarrow> int \<Rightarrow> transaction \<times> int \<times> bool
     \<Rightarrow> error + (transaction \<times> int \<times> bool)" where
  "annotation_step d meth ann i st =
     bind (case at (getData d) i of
             Undefined \<Rightarrow> Inl TypeError
           | Element ty attrs \<Rightarrow> close_span meth ann st
           | Content c anns \<Rightarrow>
               (let covered = offsetContainsAnnotation d i ann in
                if (covered \<and> meth = ''set'') \<or> (\<not> covered \<and> meth = ''clear'')
                then close_span meth ann st
                else open_span meth ann st))
       (\<lambda>(tx, span, on). Inr (tx, span + 1, on))"

function annotation_loop ::
  "doc \<Rightarrow> string \<Rightarrow> annotation \<Rightarrow> int \<Rightarrow> int \<Rightarrow> transaction \<times> int \<times> bool
     \<Rightarrow> error + (transaction \<times> int \<times> bool)" where
  "annotation_loop d meth ann e i st =
     (if i < e
      then (case annotation_step d meth ann i st of
              Inl err \<Rightarrow> Inl err
            | Inr st' \<Rightarrow> annotation_loop d meth ann e (i + 1) st')
      else Inr st)"
  by pat_completeness auto
termination
  by (relation "measure (\<lambda>(d, meth, ann, e, i, st). nat (e - i))") auto

declare annotation_loop.simps [simp del]

text \<open>After the loop: retain the open span, stop annotating if still on, and retain up to
  the end of the document.\<close>

definition annotation_finish ::
  "item list \<Rightarrow> string \<Rightarrow> annotation \<Rightarrow> int \<Rightarrow> transaction \<times> int \<times> bool
     \<Rightarrow> error + transaction" where
  "annotation_finish data meth ann e st =
     (case st of (tx, span, on) \<Rightarrow>
        bind (pushRetain tx span) (\<lambda>tx.
        pushRetain (if on then pushStopAnnotating tx meth ann else tx) (int (length data) - e)))"

definition newFromAnnotation ::
  "doc \<Rightarrow> ve_range \<Rightarrow> string \<Rightarrow> annotation \<Rightarrow> error + transaction" where
  "newFromAnnotation d range0 meth ann =
     (let tx = new_transaction;
          data = getData d;
          rng = normalize_range range0
      in bind (annotation_loop d meth ann (endpos rng) (start rng) (tx, start rng, False))
           (annotation_finish data meth ann (endpos rng)))"

text \<open>
  The \<open>for\<close> loop of \<open>newFromContentBranchConversion\<close>; its state is the transaction and
  \<open>previousBranch\<close> with \<open>previousBranchOuterRange\<close>, undefined (\<open>None\<close>) until a
  branch has been converted. Calling \<open>getOuterRange\<close> on a null parent is a TypeError.
\<close>

definition previous_end :: "(node \<times> ve_range) option \<Rightarrow> int" where
  "previous_end previous = (case previous of None \<Rightarrow> 0 | Some (pb, pr) \<Rightarrow> endpos pr)"

fun conversion_loop ::
  "item list \<Rightarrow> item \<Rightarrow> item \<Rightarrow> selected list \<Rightarrow> transaction \<Rightarrow> (node \<times> ve_range) option
     \<Rightarrow> error + (transaction \<times> (node \<times> ve_range) option)" where
  "conversion_loop data opening closing [] tx previous = Inr (tx, previous)"
| "conversion_loop data opening closing (s # rest) tx previous =
     (if isContent (node s) then
        (case getParent (node s) of
           None \<Rightarrow> Inl TypeError
         | Some branch \<Rightarrow>
             let branchOuterRange = getOuterRange branch in
             if (case previous of None \<Rightarrow> False | Some (pb, pr) \<Rightarrow> node_id branch = node_id pb)
             then conversion_loop data opening closing rest tx previous
             else
               (case pushRetain tx (start branchOuterRange - previous_end previous) of
                  Inl err \<Rightarrow> Inl err
                | Inr tx1 \<Rightarrow>
                    (case pushRetain (pushReplace tx1 [at data (start branchOuterRange)] [opening])
                            (getLength branch) of
                       Inl err \<Rightarrow> Inl err
                     | Inr tx2 \<Rightarrow>
                         conversion_loop data opening closing rest
                           (pushReplace tx2 [at data (endpos branchOuterRange - 1)] [closing])
                           (Some (branch, branchOuterRange)))))
      else conversion_loop data opening closing rest tx previous)"

text \<open>\<open>attr\<close> is \<open>None\<close> when the argument is not a plain object.\<close>

definition newFromContentBranchConversion ::
  "doc \<Rightarrow> ve_range \<Rightarrow> string \<Rightarrow> js_object option \<Rightarrow> error + transaction" where
  "newFromContentBranchConversion d rng ty attr =
     (let tx = new_transaction;
          data = getData d;
          selection = selectNodes d rng Leaves;
          opening = Element ty attr;
          closing = Element (CHR ''/'' # ty) None
      in bind (conversion_loop data opening closing selection tx None) (\<lambda>(tx, previous).
         pushRetain tx (int (length data) - previous_end previous)))"

section \<open>Measures and predicates of the statements\<close>

text \<open>What an operation consumes of the document it is applied to: a retain its length,
  a replace the length of its \<open>remove\<close> array, the others nothing.\<close>

fun consumed :: "operation \<Rightarrow> int" where
  "consumed (Retain n) = n"
| "consumed (Replace rem ins) = int (length rem)"
| "consumed (Attribute key from to) = 0"
| "consumed (Annotate meth b ann) = 0"

definition covered_length :: "transaction \<Rightarrow> int" where
  "covered_length tx = sum_list (map consumed (operations tx))"

fun is_replace :: "operation \<Rightarrow> bool" where
  "is_replace (Replace rem ins) = True"
| "is_replace _ = False"

definition length_preserving :: "transaction \<Rightarrow> bool" where
  "length_preserving tx =
     (list_all (\<lambda>x. \<not> is_replace x) (operations tx) \<and> lengthDifference tx = 0)"

text \<open>
  What the statements assume of the tree that \<open>selectNodes\<close> reads, following the data
  model: the ranges of an entry are nested (covered part inside the outer range, inner
  range inside the outer range) with \<open>start \<le> end\<close>, and the entries come in document
  order without overlap.
\<close>

definition entry_ok :: "selected \<Rightarrow> bool" where
  "entry_ok s =
     (start (nodeOuterRange s) \<le> start (nodeRange s)
      \<and> start (nodeRange s) \<le> endpos (nodeRange s)
      \<and> endpos (nodeRange s) \<le> endpos (nodeOuterRange s)
      \<and> (case range_s s of
            None \<Rightarrow> True
          | Some r \<Rightarrow> start (nodeOuterRange s) \<le> start r \<and> start r \<le> endpos r
                      \<and> endpos r \<le> endpos (nodeOuterRange s)))"

definition in_document_order :: "selected list \<Rightarrow> bool" where
  "in_document_order sel =
     (list_all entry_ok sel
      \<and> sorted_wrt (\<lambda>a b. endpos (nodeOuterRange a) \<le> start (nodeOuterRange b)) sel)"

text \<open>The outer range of a branch holds its opening marker, its content and its closing
  marker.\<close>

definition wrapped_branch :: "node \<Rightarrow> bool" where
  "wrapped_branch b = (endpos (getOuterRange b) = start (getOuterRange b) + getLength b + 2)"

definition content_in_wrapped_branches :: "selected list \<Rightarrow> bool" where
  "content_in_wrapped_branches sel =
     list_all (\<lambda>s. isContent (node s) \<longrightarrow>
                 (case getParent (node s) of None \<Rightarrow> True | Some b \<Rightarrow> wrapped_branch b)) sel"

text \<open>
  The operation lists of the statements. A retain of length 0 is never recorded, so
  \<open>retain_op 0\<close> is no operation.
\<close>

definition retain_op :: "int \<Rightarrow> operation list" where
  "retain_op n = (if n = 0 then [] else [Retain n])"






definition no_trailing_retain :: "transaction \<Rightarrow> bool" where
  "no_trailing_retain tx = (operations tx = [] \<or> \<not> is_retain (last (operations tx)))"

text \<open>
  The statements about annotation read a transaction as a pass over the document:
  \<open>annotating\<close> gives, for each item that the operations consume, whether it lies between
  a start-annotating operation and the next stop-annotating operation.
\<close>

fun annotating :: "bool \<Rightarrow> operation list \<Rightarrow> bool list" where
  "annotating on [] = []"
| "annotating on (Retain n # ops) = replicate (nat n) on @ annotating on ops"
| "annotating on (Replace rem ins # ops) = replicate (length rem) on @ annotating on ops"
| "annotating on (Attribute key from to # ops) = annotating on ops"
| "annotating on (Annotate meth Start ann # ops) = annotating True ops"
| "annotating on (Annotate meth Stop ann # ops) = annotating False ops"

text \<open>The content that an annotating span is to cover: for method \<open>set\<close> content that does
  not carry the annotation, for method \<open>clear\<close> content that carries it. An element marker
  is never eligible.\<close>

definition eligible :: "doc \<Rightarrow> string \<Rightarrow> annotation \<Rightarrow> int \<Rightarrow> bool" where
  "eligible d meth ann i =
     (case at (getData d) i of
        Content c anns \<Rightarrow>
          (meth = ''set'' \<and> \<not> offsetContainsAnnotation d i ann)
          \<or> (meth = ''clear'' \<and> offsetContainsAnnotation d i ann)
      | _ \<Rightarrow> False)"

text \<open>The number of maximal runs of \<open>True\<close> in a list that follows a value \<open>prev\<close>.\<close>

fun run_count :: "bool \<Rightarrow> bool list \<Rightarrow> nat" where
  "run_count prev [] = 0"
| "run_count prev (b # bs) = (if b \<and> \<not> prev then 1 else 0) + run_count b bs"

fun is_start :: "operation \<Rightarrow> bool" where
  "is_start (Annotate meth Start ann) = True"
| "is_start _ = False"

fun is_stop :: "operation \<Rightarrow> bool" where
  "is_stop (Annotate meth Stop ann) = True"
| "is_stop _ = False"

text \<open>
  The operations for a list of flags, one flag for each offset of the range: a start
  where the flags turn true and a stop where they turn false, each after a retain of the
  items passed since the last operation; \<open>on\<close> and \<open>span\<close> are the state before the
  first flag and \<open>rest\<close> is the length of the data after the range.
\<close>

fun annotate_ops ::
  "string \<Rightarrow> annotation \<Rightarrow> bool \<Rightarrow> int \<Rightarrow> bool list \<Rightarrow> int \<Rightarrow> operation list" where
  "annotate_ops meth ann on span [] rest =
     (if on then retain_op span @ [Annotate meth Stop ann] @ retain_op rest
      else retain_op (span + rest))"
| "annotate_ops meth ann on span (f # fs) rest =
     (if f = on then annotate_ops meth ann on (span + 1) fs rest
      else retain_op span @ [Annotate meth (if f then Start else Stop) ann]
             @ annotate_ops meth ann f 1 fs rest)"

text \<open>What the body of the loop of \<open>newFromAnnotation\<close> decides at offset \<open>i\<close>: whether
  annotating is on after it.\<close>

definition wanted :: "doc \<Rightarrow> string \<Rightarrow> annotation \<Rightarrow> int \<Rightarrow> bool" where
  "wanted d meth ann i =
     (case at (getData d) i of
        Content c anns \<Rightarrow>
          \<not> ((offsetContainsAnnotation d i ann \<and> meth = ''set'')
              \<or> (\<not> offsetContainsAnnotation d i ann \<and> meth = ''clear''))
      | _ \<Rightarrow> False)"

section \<open>Example documents\<close>

text \<open>The empty document.\<close>

definition empty_doc :: doc where
  "empty_doc =
     \<lparr>getData = [],
      selectNodes = (\<lambda>r m. []),
      fixupInsertion = (\<lambda>insertion offset. insertion),
      offsetContainsAnnotation = (\<lambda>offset ann. False),
      canBeMergedWith = (\<lambda>a b. True)\<rparr>"

text \<open>One paragraph holding one character; \<open>selectNodes\<close> finds nothing in it.\<close>

definition para_doc :: doc where
  "para_doc =
     \<lparr>getData = [Element ''paragraph'' None, Content ''a'' [], Element ''/paragraph'' None],
      selectNodes = (\<lambda>r m. []),
      fixupInsertion = (\<lambda>insertion offset. insertion),
      offsetContainsAnnotation = (\<lambda>offset ann. False),
      canBeMergedWith = (\<lambda>a b. True)\<rparr>"

text \<open>
  Two paragraphs, \<open>a\<close> and \<open>bc\<close>, that can be merged. \<open>selectNodes\<close> is given at the
  range from 0 to 5, which covers the first paragraph and reaches into the second up to
  \<open>b\<close>.
\<close>

definition first_paragraph :: node where
  "first_paragraph = Node 1 False None \<lparr>start = 0, endpos = 3\<rparr> 1"

definition first_text :: node where
  "first_text = Node 2 True (Some first_paragraph) \<lparr>start = 1, endpos = 2\<rparr> 1"

definition second_paragraph :: node where
  "second_paragraph = Node 3 False None \<lparr>start = 3, endpos = 7\<rparr> 2"

definition second_text :: node where
  "second_text = Node 4 True (Some second_paragraph) \<lparr>start = 4, endpos = 6\<rparr> 2"

definition two_paragraphs :: doc where
  "two_paragraphs =
     \<lparr>getData = [Element ''paragraph'' None, Content ''a'' [], Element ''/paragraph'' None,
                 Element ''paragraph'' None, Content ''b'' [], Content ''c'' [],
                 Element ''/paragraph'' None],
      selectNodes = (\<lambda>r m.
        if r = \<lparr>start = 0, endpos = 5\<rparr> \<and> m = Covered then
          [\<lparr>node = first_paragraph, range_s = None,
            nodeRange = \<lparr>start = 1, endpos = 2\<rparr>, nodeOuterRange = \<lparr>start = 0, endpos = 3\<rparr>\<rparr>,
           \<lparr>node = second_paragraph, range_s = Some \<lparr>start = 4, endpos = 5\<rparr>,
            nodeRange = \<lparr>start = 4, endpos = 6\<rparr>, nodeOuterRange = \<lparr>start = 3, endpos = 7\<rparr>\<rparr>]
        else if r = \<lparr>start = 0, endpos = 5\<rparr> \<and> m = Leaves then
          [\<lparr>node = first_text, range_s = None,
            nodeRange = \<lparr>start = 1, endpos = 2\<rparr>, nodeOuterRange = \<lparr>start = 1, endpos = 2\<rparr>\<rparr>,
           \<lparr>node = second_text, range_s = Some \<lparr>start = 4, endpos = 5\<rparr>,
            nodeRange = \<lparr>start = 4, endpos = 6\<rparr>, nodeOuterRange = \<lparr>start = 4, endpos = 6\<rparr>\<rparr>]
        else []),
      fixupInsertion = (\<lambda>insertion offset. insertion),
      offsetContainsAnnotation = (\<lambda>offset ann. False),
      canBeMergedWith = (\<lambda>a b. True)\<rparr>"





text \<open>
  A heading of level 1. Its attributes are a plain object, which inherits the properties
  of \<open>Object.prototype\<close>.
\<close>

definition object_prototype :: "(string \<times> attr_value) list" where
  "object_prototype =
     [(''constructor'', AOther ''Object''),
      (''toString'', AOther ''Object.prototype.toString''),
      (''toLocaleString'', AOther ''Object.prototype.toLocaleString''),
      (''valueOf'', AOther ''Object.prototype.valueOf''),
      (''hasOwnProperty'', AOther ''Object.prototype.hasOwnProperty''),
      (''isPrototypeOf'', AOther ''Object.prototype.isPrototypeOf''),
      (''propertyIsEnumerable'', AOther ''Object.prototype.propertyIsEnumerable'')]"

definition plain_object :: "(string \<times> attr_value) list \<Rightarrow> js_object" where
  "plain_object kvs = \<lparr>own = kvs, inherited = object_prototype\<rparr>"

definition level_doc :: doc where
  "level_doc =
     \<lparr>getData = [Element ''heading'' (Some (plain_object [(''level'', ANumber 1)])),
                 Content ''a'' [], Element ''/heading'' None],
      selectNodes = (\<lambda>r m. []),
      fixupInsertion = (\<lambda>insertion offset. insertion),
      offsetContainsAnnotation = (\<lambda>offset ann. False),
      canBeMergedWith = (\<lambda>a b. True)\<rparr>"

text \<open>Five characters without annotations.\<close>

definition five_characters :: doc where
  "five_characters =
     \<lparr>getData = [Content ''h'' [], Content ''e'' [], Content ''l'' [], Content ''l'' [],
                 Content ''o'' []],
      selectNodes = (\<lambda>r m. []),
      fixupInsertion = (\<lambda>insertion offset. insertion),
      offsetContainsAnnotation = (\<lambda>offset ann. False),
      canBeMergedWith = (\<lambda>a b. True)\<rparr>"

section \<open>Basic facts\<close>

lemmas push_defs = pushRetain_def pushReplace_def pushReplaceElementAttribute_def
  pushStartAnnotating_def pushStopAnnotating_def new_transaction_def

lemmas two_paragraphs_defs = two_paragraphs_def first_paragraph_def first_text_def
  second_paragraph_def second_text_def

lemma bind_Inr_iff: "bind m f = Inr y \<longleftrightarrow> (\<exists>x. m = Inr x \<and> f x = Inr y)"
  by (cases m) (simp_all add: bind_def)

lemma bind_Inr [simp]: "bind (Inr x) f = f x"
  by (simp add: bind_def)

lemma bind_Inl [simp]: "bind (Inl e) f = Inl e"
  by (simp add: bind_def)

lemma pushRetain_Inr: "pushRetain tx n = Inr tx' \<Longrightarrow> 0 \<le> n"
  by (simp add: pushRetain_def split: if_splits)

lemma pushRetain_new: "0 < n \<Longrightarrow> pushRetain new_transaction n = Inr \<lparr>operations = [Retain n], lengthDifference = 0\<rparr>"
  by (simp add: pushRetain_def new_transaction_def)

lemma pushRetain_zero [simp]: "pushRetain tx 0 = Inr tx"
  by (simp add: pushRetain_def)

lemma pushRetain_neg: "n < 0 \<Longrightarrow> pushRetain tx n = Inl (InvalidRetain n)"
  by (simp add: pushRetain_def)

lemma is_retain_last: "xs \<noteq> [] \<Longrightarrow> is_retain (last xs) \<Longrightarrow> \<exists>ys l. xs = ys @ [Retain l]"
  by (metis append_butlast_last_id is_retain.elims(2))

lemma pushRetain_cases:
  assumes "pushRetain tx n = Inr tx'"
  shows "0 \<le> n \<and> lengthDifference tx' = lengthDifference tx \<and>
     ((n = 0 \<and> tx' = tx)
      \<or> (0 < n \<and> (\<exists>ops l. operations tx = ops @ [Retain l] \<and> operations tx' = ops @ [Retain (l + n)]))
      \<or> (0 < n \<and> operations tx' = operations tx @ [Retain n]))"
proof (cases "n = 0")
  case True
  with assms show ?thesis by simp
next
  case False
  with assms have pos: "0 < n" by (simp add: pushRetain_def split: if_splits)
  show ?thesis
  proof (cases "operations tx \<noteq> [] \<and> is_retain (last (operations tx))")
    case True
    then obtain ys l where ys: "operations tx = ys @ [Retain l]"
      using is_retain_last by blast
    with assms pos show ?thesis by (auto simp: pushRetain_def)
  next
    case False
    with assms pos show ?thesis by (auto simp: pushRetain_def)
  qed
qed

lemma at_Element: "at data i = Element ty attrs \<Longrightarrow> 0 \<le> i \<and> i < int (length data)"
  by (simp add: at_def split: if_splits)

lemma length_slice: "0 \<le> s \<Longrightarrow> s \<le> e \<Longrightarrow> e \<le> int (length xs) \<Longrightarrow> int (length (slice xs s e)) = e - s"
  by (auto simp: slice_def Let_def min_def)

lemma pushRetain_append:
  "no_trailing_retain tx \<Longrightarrow> 0 \<le> n \<Longrightarrow>
   pushRetain tx n = Inr (tx\<lparr>operations := operations tx @ retain_op n\<rparr>)"
  by (auto simp: pushRetain_def no_trailing_retain_def retain_op_def)

lemma no_trailing_retain_new [simp]: "no_trailing_retain new_transaction"
  by (simp add: no_trailing_retain_def new_transaction_def)

lemma no_trailing_retain_replace [simp]:
  "rem \<noteq> [] \<or> ins \<noteq> [] \<Longrightarrow> no_trailing_retain (pushReplace tx rem ins)"
  by (auto simp: no_trailing_retain_def pushReplace_def)


lemma slice_nonempty: "0 \<le> s \<Longrightarrow> s < e \<Longrightarrow> e \<le> int (length xs) \<Longrightarrow> slice xs s e \<noteq> []"
  using length_slice [of s e xs] by auto

lemma no_trailing_retain_update [simp]:
  "no_trailing_retain (tx\<lparr>operations := ops\<rparr>) = (ops = [] \<or> \<not> is_retain (last ops))"
  by (simp add: no_trailing_retain_def)

section \<open>Operation accumulation\<close>

text \<open>
  C9. \<open>pushRetain\<close> raises InvalidRetain for every negative length, appends nothing for
  length 0, and adds the length to a trailing retain instead of appending a second one
  (it appends a retain when there is no trailing retain);
  \<open>pushReplace\<close> with both arrays empty appends nothing and leaves
  \<open>lengthDifference\<close> unchanged, and otherwise appends one replace operation and adds
  \<open>insert.length - remove.length\<close> to \<open>lengthDifference\<close>.
\<close>

theorem push_accumulation:
  "(len < 0 \<longrightarrow> pushRetain tx len = Inl (InvalidRetain len))
   \<and> pushRetain tx 0 = Inr tx
   \<and> (0 < len \<and> operations tx = ops @ [Retain l] \<longrightarrow>
        pushRetain tx len = Inr (tx\<lparr>operations := ops @ [Retain (l + len)]\<rparr>))
   \<and> (0 < len \<and> (operations tx = [] \<or> \<not> is_retain (last (operations tx))) \<longrightarrow>
        pushRetain tx len = Inr (tx\<lparr>operations := operations tx @ [Retain len]\<rparr>))
   \<and> pushReplace tx [] [] = tx
   \<and> (rem \<noteq> [] \<or> ins \<noteq> [] \<longrightarrow>
        pushReplace tx rem ins =
          tx\<lparr>operations := operations tx @ [Replace rem ins],
             lengthDifference := lengthDifference tx + (int (length ins) - int (length rem))\<rparr>)"
  by (auto simp: pushRetain_def pushReplace_def)

theorem push_accumulation_witness:
  "pushRetain \<lparr>operations = [Retain 2], lengthDifference = 0\<rparr> (-1) = Inl (InvalidRetain (-1))
   \<and> pushRetain \<lparr>operations = [Retain 2], lengthDifference = 0\<rparr> 3
       = Inr \<lparr>operations = [Retain 5], lengthDifference = 0\<rparr>
   \<and> pushRetain \<lparr>operations = [], lengthDifference = 0\<rparr> 3
       = Inr \<lparr>operations = [Retain 3], lengthDifference = 0\<rparr>
   \<and> pushReplace \<lparr>operations = [Retain 2], lengthDifference = 0\<rparr> [Content ''a'' []] []
       = \<lparr>operations = [Retain 2, Replace [Content ''a'' []] []], lengthDifference = - 1\<rparr>"
  using push_accumulation [of "-1" "\<lparr>operations = [Retain 2], lengthDifference = 0\<rparr>" "[]" 2 "[Content ''a'' []]" "[]"]
    push_accumulation [of 3 "\<lparr>operations = [Retain 2], lengthDifference = 0\<rparr>" "[]" 2 "[Content ''a'' []]" "[]"]
    push_accumulation [of 3 "\<lparr>operations = [], lengthDifference = 0\<rparr>" "[]" 2 "[Content ''a'' []]" "[]"]
  by simp

section \<open>Insertion\<close>

text \<open>
  C2, as the claim states it, fails in its general part at offset 0, an insertion at the
  start of the document: \<open>pushRetain(0)\<close> records nothing, so the operations start with
  the replace, not with a retain(0). The example of the claim holds.
\<close>

theorem newFromInsertion_start_counterexample:
  "newFromInsertion para_doc 0 [Content ''b'' []] =
     Inr \<lparr>operations = [Replace [] [Content ''b'' []], Retain 3], lengthDifference = 1\<rparr>
   \<and> newFromInsertion para_doc 0 [Content ''b'' []] \<noteq>
     Inr \<lparr>operations = [Retain 0, Replace [] [Content ''b'' []], Retain 3],
          lengthDifference = 1\<rparr>"
  by (simp add: newFromInsertion_def para_doc_def push_defs)

text \<open>
  C2 (amended). On the document \<open>[{type:'paragraph'}, 'a', {type:'/paragraph'}]\<close>, when
  \<open>fixupInsertion\<close> returns the insertion unchanged, \<open>newFromInsertion(doc, 2, ['b'])\<close>
  has exactly the operations retain(2), replace([], ['b']), retain(1) and
  \<open>lengthDifference\<close> 1. In general, for an offset from 0 to the length of the data and
  a fixed-up insertion that is not empty, the operations of
  \<open>newFromInsertion(doc, offset, insertion)\<close> are retain(offset), left out when the offset
  is 0, replace([], fixed-up insertion), and retain(data.length - offset), left out when
  the offset is the length of the data; these are exactly three operations when the offset
  is strictly inside the data. When the fixed-up insertion is empty the only operation is
  one retain of the length of the data, and none when the data is empty. For an offset
  outside the data the builder fails with InvalidRetain.
\<close>

theorem newFromInsertion_operations:
  "(getData d = [Element ''paragraph'' None, Content ''a'' [], Element ''/paragraph'' None]
      \<and> fixupInsertion d [Content ''b'' []] 2 = [Content ''b'' []] \<longrightarrow>
    newFromInsertion d 2 [Content ''b'' []] =
      Inr \<lparr>operations = [Retain 2, Replace [] [Content ''b'' []], Retain 1],
           lengthDifference = 1\<rparr>)
   \<and> (0 \<le> offset \<and> offset \<le> int (length (getData d)) \<and> fixupInsertion d insertion offset \<noteq> []
        \<longrightarrow>
       newFromInsertion d offset insertion =
         Inr \<lparr>operations =
                (if offset = 0 then [] else [Retain offset])
                @ [Replace [] (fixupInsertion d insertion offset)]
                @ (if offset = int (length (getData d)) then []
                   else [Retain (int (length (getData d)) - offset)]),
              lengthDifference = int (length (fixupInsertion d insertion offset))\<rparr>)
   \<and> (0 < offset \<and> offset < int (length (getData d)) \<and> fixupInsertion d insertion offset \<noteq> []
        \<longrightarrow>
       newFromInsertion d offset insertion =
         Inr \<lparr>operations = [Retain offset, Replace [] (fixupInsertion d insertion offset),
                 Retain (int (length (getData d)) - offset)],
              lengthDifference = int (length (fixupInsertion d insertion offset))\<rparr>)
   \<and> (0 \<le> offset \<and> offset \<le> int (length (getData d)) \<and> fixupInsertion d insertion offset = []
        \<longrightarrow>
       newFromInsertion d offset insertion =
         Inr \<lparr>operations = (if getData d = [] then [] else [Retain (int (length (getData d)))]),
              lengthDifference = 0\<rparr>)
   \<and> (offset < 0 \<longrightarrow> newFromInsertion d offset insertion = Inl (InvalidRetain offset))
   \<and> (int (length (getData d)) < offset \<longrightarrow>
       newFromInsertion d offset insertion =
         Inl (InvalidRetain (int (length (getData d)) - offset)))"
proof (intro conjI impI)
  assume "getData d = [Element ''paragraph'' None, Content ''a'' [], Element ''/paragraph'' None]
      \<and> fixupInsertion d [Content ''b'' []] 2 = [Content ''b'' []]"
  then show "newFromInsertion d 2 [Content ''b'' []] =
      Inr \<lparr>operations = [Retain 2, Replace [] [Content ''b'' []], Retain 1],
           lengthDifference = 1\<rparr>"
    by (simp add: newFromInsertion_def Let_def push_defs)
next
  assume h: "0 \<le> offset \<and> offset \<le> int (length (getData d)) \<and> fixupInsertion d insertion offset \<noteq> []"
  let ?fixed = "fixupInsertion d insertion offset"
  have n2: "no_trailing_retain
     (pushReplace (new_transaction\<lparr>operations := operations new_transaction @ retain_op offset\<rparr>)
        [] ?fixed)"
    using h by simp
  from h have "newFromInsertion d offset insertion =
         Inr \<lparr>operations = retain_op offset @ [Replace [] ?fixed]
                             @ retain_op (int (length (getData d)) - offset),
              lengthDifference = int (length ?fixed)\<rparr>"
    by (simp add: newFromInsertion_def Let_def pushRetain_append pushRetain_append [OF n2])
       (simp add: pushReplace_def new_transaction_def)
  then show "newFromInsertion d offset insertion =
         Inr \<lparr>operations =
                (if offset = 0 then [] else [Retain offset])
                @ [Replace [] ?fixed]
                @ (if offset = int (length (getData d)) then []
                   else [Retain (int (length (getData d)) - offset)]),
              lengthDifference = int (length ?fixed)\<rparr>"
    by (simp add: retain_op_def)
next
  assume "0 < offset \<and> offset < int (length (getData d)) \<and> fixupInsertion d insertion offset \<noteq> []"
  then show "newFromInsertion d offset insertion =
         Inr \<lparr>operations = [Retain offset, Replace [] (fixupInsertion d insertion offset),
                 Retain (int (length (getData d)) - offset)],
              lengthDifference = int (length (fixupInsertion d insertion offset))\<rparr>"
    by (simp add: newFromInsertion_def Let_def push_defs)
next
  assume h: "0 \<le> offset \<and> offset \<le> int (length (getData d)) \<and> fixupInsertion d insertion offset = []"
  show "newFromInsertion d offset insertion =
         Inr \<lparr>operations = (if getData d = [] then [] else [Retain (int (length (getData d)))]),
              lengthDifference = 0\<rparr>"
  proof (cases "offset = 0")
    case True
    with h show ?thesis
      by (simp add: newFromInsertion_def Let_def push_defs)
  next
    case False
    with h show ?thesis
      by (auto simp: newFromInsertion_def Let_def push_defs)
  qed
next
  assume "offset < 0"
  then show "newFromInsertion d offset insertion = Inl (InvalidRetain offset)"
    by (simp add: newFromInsertion_def Let_def pushRetain_def)
next
  assume h: "int (length (getData d)) < offset"
  then have "0 < offset" by simp
  then have "pushRetain new_transaction offset =
      Inr \<lparr>operations = [Retain offset], lengthDifference = 0\<rparr>"
    by (rule pushRetain_new)
  with h show "newFromInsertion d offset insertion =
         Inl (InvalidRetain (int (length (getData d)) - offset))"
    by (simp add: newFromInsertion_def Let_def pushRetain_neg)
qed

theorem newFromInsertion_operations_witness:
  "getData para_doc = [Element ''paragraph'' None, Content ''a'' [], Element ''/paragraph'' None]
   \<and> fixupInsertion para_doc [Content ''b'' []] 2 = [Content ''b'' []]
   \<and> (0::int) < 2 \<and> 2 < int (length (getData para_doc))
   \<and> newFromInsertion para_doc 2 [Content ''b'' []] =
      Inr \<lparr>operations = [Retain 2, Replace [] [Content ''b'' []], Retain 1],
           lengthDifference = 1\<rparr>
   \<and> (0::int) \<le> 0 \<and> 0 \<le> int (length (getData para_doc))
   \<and> fixupInsertion para_doc [Content ''b'' []] 0 \<noteq> []
   \<and> newFromInsertion para_doc 0 [Content ''b'' []] =
      Inr \<lparr>operations = [Replace [] [Content ''b'' []], Retain 3], lengthDifference = 1\<rparr>
   \<and> newFromInsertion para_doc 3 [Content ''b'' []] =
      Inr \<lparr>operations = [Retain 3, Replace [] [Content ''b'' []]], lengthDifference = 1\<rparr>
   \<and> fixupInsertion para_doc [] 1 = []
   \<and> newFromInsertion para_doc 1 [] = Inr \<lparr>operations = [Retain 3], lengthDifference = 0\<rparr>
   \<and> newFromInsertion para_doc (- 1) [Content ''b'' []] = Inl (InvalidRetain (- 1))
   \<and> newFromInsertion para_doc 4 [Content ''b'' []] = Inl (InvalidRetain (- 1))"
proof -
  have facts: "getData para_doc =
      [Element ''paragraph'' None, Content ''a'' [], Element ''/paragraph'' None]"
    "\<And>insertion offset. fixupInsertion para_doc insertion offset = insertion"
    "int (length (getData para_doc)) = 3"
    by (simp_all add: para_doc_def)
  from facts
    newFromInsertion_operations [of para_doc 2 "[Content ''b'' []]", THEN conjunct1]
  have 1: "newFromInsertion para_doc 2 [Content ''b'' []] =
      Inr \<lparr>operations = [Retain 2, Replace [] [Content ''b'' []], Retain 1],
           lengthDifference = 1\<rparr>"
    by simp
  from facts
    newFromInsertion_operations [of para_doc 0 "[Content ''b'' []]",
      THEN conjunct2, THEN conjunct1]
  have 2: "newFromInsertion para_doc 0 [Content ''b'' []] =
      Inr \<lparr>operations = [Replace [] [Content ''b'' []], Retain 3], lengthDifference = 1\<rparr>"
    by simp
  from facts
    newFromInsertion_operations [of para_doc 3 "[Content ''b'' []]",
      THEN conjunct2, THEN conjunct1]
  have 3: "newFromInsertion para_doc 3 [Content ''b'' []] =
      Inr \<lparr>operations = [Retain 3, Replace [] [Content ''b'' []]], lengthDifference = 1\<rparr>"
    by simp
  from facts
    newFromInsertion_operations [of para_doc 1 "[]",
      THEN conjunct2, THEN conjunct2, THEN conjunct2, THEN conjunct1]
  have 4: "newFromInsertion para_doc 1 [] = Inr \<lparr>operations = [Retain 3], lengthDifference = 0\<rparr>"
    by simp
  from
    newFromInsertion_operations [of para_doc "- 1" "[Content ''b'' []]",
      THEN conjunct2, THEN conjunct2, THEN conjunct2, THEN conjunct2, THEN conjunct1]
  have 5: "newFromInsertion para_doc (- 1) [Content ''b'' []] = Inl (InvalidRetain (- 1))"
    by simp
  from facts
    newFromInsertion_operations [of para_doc 4 "[Content ''b'' []]",
      THEN conjunct2, THEN conjunct2, THEN conjunct2, THEN conjunct2, THEN conjunct2]
  have 6: "newFromInsertion para_doc 4 [Content ''b'' []] = Inl (InvalidRetain (- 1))"
    by simp
  from facts 1 2 3 4 5 6 show ?thesis by simp
qed

section \<open>Removal\<close>

text \<open>
  C3, as the claim states it, fails on the empty document: \<open>pushRetain(0)\<close> records
  nothing, so the transaction has no operation at all, not a retain of length 0.
\<close>

theorem newFromRemoval_empty_document_counterexample:
  "newFromRemoval empty_doc \<lparr>start = 0, endpos = 0\<rparr> = Inr \<lparr>operations = [], lengthDifference = 0\<rparr>
   \<and> newFromRemoval empty_doc \<lparr>start = 0, endpos = 0\<rparr>
       \<noteq> Inr \<lparr>operations = [Retain (int (length (getData empty_doc)))], lengthDifference = 0\<rparr>"
  by (simp add: newFromRemoval_def empty_doc_def normalize_range_def new_transaction_def)

text \<open>
  C3 (amended). For every document and every range with \<open>start = end\<close> after
  normalization, \<open>newFromRemoval\<close> returns a transaction with \<open>lengthDifference\<close> 0
  whose only operation is one retain of the full length of the data when the data is not
  empty, and which has no operation when the data is empty.
\<close>

theorem newFromRemoval_empty_range:
  "start (normalize_range r) = endpos (normalize_range r) \<Longrightarrow>
   newFromRemoval d r =
     Inr \<lparr>operations = (if getData d = [] then [] else [Retain (int (length (getData d)))]),
          lengthDifference = 0\<rparr>"
  by (simp add: newFromRemoval_def Let_def pushRetain_new) (simp add: new_transaction_def)

theorem newFromRemoval_empty_range_witness:
  "start (normalize_range \<lparr>start = 1, endpos = 1\<rparr>) = endpos (normalize_range \<lparr>start = 1, endpos = 1\<rparr>)
   \<and> newFromRemoval para_doc \<lparr>start = 1, endpos = 1\<rparr>
       = Inr \<lparr>operations = [Retain 3], lengthDifference = 0\<rparr>"
  using newFromRemoval_empty_range [of "\<lparr>start = 1, endpos = 1\<rparr>" para_doc]
  by (simp add: normalize_range_def para_doc_def)

text \<open>
  C5. For every document and every range that is not empty after normalization and for
  which \<open>selectNodes(range, 'covered')\<close> returns an empty selection, \<open>newFromRemoval\<close>
  raises InvalidRange and returns no transaction.
\<close>

theorem newFromRemoval_empty_selection:
  "start (normalize_range r) \<noteq> endpos (normalize_range r) \<Longrightarrow>
   selectNodes d (normalize_range r) Covered = [] \<Longrightarrow>
   newFromRemoval d r = Inl (InvalidRange (start (normalize_range r)) (endpos (normalize_range r)))"
  by (simp add: newFromRemoval_def Let_def)

theorem newFromRemoval_empty_selection_witness:
  "start (normalize_range \<lparr>start = 2, endpos = 1\<rparr>) \<noteq> endpos (normalize_range \<lparr>start = 2, endpos = 1\<rparr>)
   \<and> selectNodes para_doc (normalize_range \<lparr>start = 2, endpos = 1\<rparr>) Covered = []
   \<and> newFromRemoval para_doc \<lparr>start = 2, endpos = 1\<rparr> = Inl (InvalidRange 1 2)"
  using newFromRemoval_empty_selection [of "\<lparr>start = 2, endpos = 1\<rparr>" para_doc]
  by (simp add: normalize_range_def para_doc_def)

text \<open>
  C4, as the claim states it, fails when the first node is covered completely and the last
  one only in part: the removal then starts at the first node's inner range
  (\<open>first.nodeRange.start\<close>), after its opening marker, not at its outer range.
\<close>

theorem newFromRemoval_merge_counterexample:
  "canBeMergedWith two_paragraphs
      (node (hd (selectNodes two_paragraphs \<lparr>start = 0, endpos = 5\<rparr> Covered)))
      (node (last (selectNodes two_paragraphs \<lparr>start = 0, endpos = 5\<rparr> Covered)))
   \<and> range_s (hd (selectNodes two_paragraphs \<lparr>start = 0, endpos = 5\<rparr> Covered)) = None
   \<and> start (nodeOuterRange (hd (selectNodes two_paragraphs \<lparr>start = 0, endpos = 5\<rparr> Covered))) = 0
   \<and> newFromRemoval two_paragraphs \<lparr>start = 0, endpos = 5\<rparr> =
       Inr \<lparr>operations =
              [Retain 1,
               Replace [Content ''a'' [], Element ''/paragraph'' None, Element ''paragraph'' None,
                        Content ''b'' []] [],
               Retain 2],
            lengthDifference = - 4\<rparr>
   \<and> newFromRemoval two_paragraphs \<lparr>start = 0, endpos = 5\<rparr> \<noteq>
       Inr \<lparr>operations =
              [Replace [Element ''paragraph'' None, Content ''a'' [], Element ''/paragraph'' None,
                        Element ''paragraph'' None, Content ''b'' []] [],
               Retain 2],
            lengthDifference = - 5\<rparr>"
  by (simp add: newFromRemoval_def two_paragraphs_def normalize_range_def merge_span_def
      slice_def push_defs)

text \<open>
  C4 (amended). In \<open>newFromRemoval\<close>, whenever the first and the last node of the
  covered-mode selection satisfy \<open>canBeMergedWith\<close>, the returned transaction has exactly
  one replace operation, which removes the single span from the first node's merge point
  to the last node's merge point, between the retains before and after it. When both
  nodes are covered completely the merge points are the first node's outer-range start and
  the last node's outer-range end; otherwise they are the start of the first node's
  covered part, or of its inner range if it is covered completely, and the end of the
  last node's covered part, or of its inner range if it is covered completely. The span is
  taken to be non-empty and inside the data.
\<close>

theorem newFromRemoval_merge:
  assumes "start (normalize_range r) \<noteq> endpos (normalize_range r)"
    and "selectNodes d (normalize_range r) Covered = sel" and "sel \<noteq> []"
    and "canBeMergedWith d (node (hd sel)) (node (last sel))"
    and "merge_span (hd sel) (last sel) = (rs, re)"
    and "0 \<le> rs" and "rs < re" and "re \<le> int (length (getData d))"
  shows "newFromRemoval d r =
           Inr \<lparr>operations = retain_op rs @ [Replace (slice (getData d) rs re) []]
                               @ retain_op (int (length (getData d)) - re),
                lengthDifference = - (re - rs)\<rparr>
         \<and> (range_s (hd sel) = None \<and> range_s (last sel) = None \<longrightarrow>
               rs = start (nodeOuterRange (hd sel)) \<and> re = endpos (nodeOuterRange (last sel)))
         \<and> (range_s (hd sel) = None \<and> range_s (last sel) \<noteq> None \<longrightarrow>
               rs = start (nodeRange (hd sel)))
         \<and> (range_s (hd sel) \<noteq> None \<and> range_s (last sel) = None \<longrightarrow>
               re = endpos (nodeRange (last sel)))
         \<and> (range_s (hd sel) = Some q1 \<longrightarrow> rs = start q1)
         \<and> (range_s (last sel) = Some q2 \<longrightarrow> re = endpos q2)"
proof -
  from assms(6-8) have ne: "slice (getData d) rs re \<noteq> []"
    by (intro slice_nonempty)
  from assms(6-8) have len: "int (length (slice (getData d) rs re)) = re - rs"
    by (intro length_slice) auto
  have n2: "no_trailing_retain
     (pushReplace (new_transaction\<lparr>operations := operations new_transaction @ retain_op rs\<rparr>)
        (slice (getData d) rs re) [])"
    using ne by simp
  have "newFromRemoval d r =
           Inr \<lparr>operations = retain_op rs @ [Replace (slice (getData d) rs re) []]
                               @ retain_op (int (length (getData d)) - re),
                lengthDifference = - (re - rs)\<rparr>"
    using assms ne len
    by (simp add: newFromRemoval_def Let_def pushRetain_append pushRetain_append [OF n2])
       (simp add: pushReplace_def new_transaction_def)
  moreover from assms(5) have
    "range_s (hd sel) = None \<and> range_s (last sel) = None \<longrightarrow>
       rs = start (nodeOuterRange (hd sel)) \<and> re = endpos (nodeOuterRange (last sel))"
    "range_s (hd sel) = None \<and> range_s (last sel) \<noteq> None \<longrightarrow> rs = start (nodeRange (hd sel))"
    "range_s (hd sel) \<noteq> None \<and> range_s (last sel) = None \<longrightarrow> re = endpos (nodeRange (last sel))"
    "range_s (hd sel) = Some q1 \<longrightarrow> rs = start q1"
    "range_s (last sel) = Some q2 \<longrightarrow> re = endpos q2"
    by (auto simp: merge_span_def split: if_splits)
  ultimately show ?thesis by blast
qed

theorem newFromRemoval_merge_witness:
  "start (normalize_range \<lparr>start = 0, endpos = 5\<rparr>) \<noteq> endpos (normalize_range \<lparr>start = 0, endpos = 5\<rparr>)
   \<and> selectNodes two_paragraphs (normalize_range \<lparr>start = 0, endpos = 5\<rparr>) Covered \<noteq> []
   \<and> canBeMergedWith two_paragraphs first_paragraph second_paragraph
   \<and> merge_span (hd (selectNodes two_paragraphs (normalize_range \<lparr>start = 0, endpos = 5\<rparr>) Covered))
        (last (selectNodes two_paragraphs (normalize_range \<lparr>start = 0, endpos = 5\<rparr>) Covered)) = (1, 5)
   \<and> (0::int) \<le> 1 \<and> (1::int) < 5 \<and> 5 \<le> int (length (getData two_paragraphs))
   \<and> newFromRemoval two_paragraphs \<lparr>start = 0, endpos = 5\<rparr> =
       Inr \<lparr>operations =
              [Retain 1,
               Replace [Content ''a'' [], Element ''/paragraph'' None, Element ''paragraph'' None,
                        Content ''b'' []] [],
               Retain 2],
            lengthDifference = - 4\<rparr>"
proof -
  let ?r = "\<lparr>start = 0, endpos = 5\<rparr>"
  let ?sel = "selectNodes two_paragraphs (normalize_range ?r) Covered"
  have a: "start (normalize_range ?r) \<noteq> endpos (normalize_range ?r)"
    by (simp add: normalize_range_def)
  have b: "?sel \<noteq> []"
    by (simp add: two_paragraphs_def normalize_range_def)
  have c: "canBeMergedWith two_paragraphs (node (hd ?sel)) (node (last ?sel))"
    by (simp add: two_paragraphs_def)
  have c': "canBeMergedWith two_paragraphs first_paragraph second_paragraph"
    by (simp add: two_paragraphs_def)
  have m: "merge_span (hd ?sel) (last ?sel) = (1, 5)"
    by (simp add: two_paragraphs_def normalize_range_def merge_span_def)
  have len: "int (length (getData two_paragraphs)) = 7"
    by (simp add: two_paragraphs_def)
  have ops: "retain_op 1 @ [Replace (slice (getData two_paragraphs) 1 5) []] @ retain_op (7 - 5) =
              [Retain 1,
               Replace [Content ''a'' [], Element ''/paragraph'' None, Element ''paragraph'' None,
                        Content ''b'' []] [],
               Retain 2]"
    by (simp add: two_paragraphs_def retain_op_def slice_def)
  from newFromRemoval_merge [OF a refl b c m] len ops
  have "newFromRemoval two_paragraphs ?r =
       Inr \<lparr>operations =
              [Retain 1,
               Replace [Content ''a'' [], Element ''/paragraph'' None, Element ''paragraph'' None,
                        Content ''b'' []] [],
               Retain 2],
            lengthDifference = - 4\<rparr>"
    by simp
  with a b c' m len show ?thesis by simp
qed







section \<open>Attribute change\<close>

text \<open>
  C7, as the claim states it, fails at offset 0, the offset of the first element of every
  document: \<open>pushRetain(0)\<close> records nothing, so the operations start with the attribute
  change, not with a retain(0).
\<close>

theorem newFromAttributeChange_first_element_counterexample:
  "newFromAttributeChange para_doc 0 ''style'' (AString ''x'') =
     Inr \<lparr>operations = [Attribute ''style'' AUndefined (AString ''x''), Retain 3],
          lengthDifference = 0\<rparr>
   \<and> newFromAttributeChange para_doc 0 ''style'' (AString ''x'') \<noteq>
     Inr \<lparr>operations = [Retain 0, Attribute ''style'' AUndefined (AString ''x''), Retain 3],
          lengthDifference = 0\<rparr>"
  by (simp add: newFromAttributeChange_def para_doc_def at_def is_closing_def push_defs
      attribute_of_def)

text \<open>
  C7 (amended). \<open>newFromAttributeChange(doc, offset, key, value)\<close> fails with NotAnElement
  when the item at the offset is content, and with ClosingElement when it is an element
  whose type begins with a slash. For an element of any other type, the empty type
  included, its operations are retain(offset), left out when the offset is 0, then the
  attribute change with the key, the element's current value of the attribute and the new
  value, then a retain of \<open>data.length - offset\<close>. The current value is what
  \<open>attributes[key]\<close> reads: the own property of that name, else the inherited one, else
  undefined; it is undefined when the element has no attributes.
\<close>

theorem newFromAttributeChange_result:
  "(at (getData d) offset = Content c anns \<longrightarrow>
      newFromAttributeChange d offset key v = Inl NotAnElement)
   \<and> (at (getData d) offset = Element (CHR ''/'' # rest) attrs \<longrightarrow>
      newFromAttributeChange d offset key v = Inl ClosingElement)
   \<and> (at (getData d) offset = Element ty attrs \<and> (ty = [] \<or> hd ty \<noteq> CHR ''/'') \<longrightarrow>
      newFromAttributeChange d offset key v =
        Inr \<lparr>operations =
               (if offset = 0 then [] else [Retain offset]) @
               [Attribute key
                  (case attrs of
                     None \<Rightarrow> AUndefined
                   | Some obj \<Rightarrow>
                       (case map_of (own obj) key of
                          Some cur \<Rightarrow> cur
                        | None \<Rightarrow>
                            (case map_of (inherited obj) key of
                               Some cur \<Rightarrow> cur
                             | None \<Rightarrow> AUndefined)))
                  v,
                Retain (int (length (getData d)) - offset)],
             lengthDifference = 0\<rparr>)"
proof (intro conjI impI)
  assume "at (getData d) offset = Content c anns"
  then show "newFromAttributeChange d offset key v = Inl NotAnElement"
    by (simp add: newFromAttributeChange_def)
next
  assume "at (getData d) offset = Element (CHR ''/'' # rest) attrs"
  then show "newFromAttributeChange d offset key v = Inl ClosingElement"
    by (simp add: newFromAttributeChange_def is_closing_def)
next
  assume a: "at (getData d) offset = Element ty attrs \<and> (ty = [] \<or> hd ty \<noteq> CHR ''/'')"
  then have b: "0 \<le> offset" "offset < int (length (getData d))"
    using at_Element by blast+
  from a have open_marker: "\<not> is_closing ty"
    by (cases ty) (auto simp: is_closing_def)
  have cur: "attribute_of attrs key =
     (case attrs of
        None \<Rightarrow> AUndefined
      | Some obj \<Rightarrow>
          (case map_of (own obj) key of
             Some cur \<Rightarrow> cur
           | None \<Rightarrow>
               (case map_of (inherited obj) key of Some cur \<Rightarrow> cur | None \<Rightarrow> AUndefined)))"
    by (simp add: attribute_of_def get_property_def split: option.splits)
  show "newFromAttributeChange d offset key v =
        Inr \<lparr>operations =
               (if offset = 0 then [] else [Retain offset]) @
               [Attribute key
                  (case attrs of
                     None \<Rightarrow> AUndefined
                   | Some obj \<Rightarrow>
                       (case map_of (own obj) key of
                          Some cur \<Rightarrow> cur
                        | None \<Rightarrow>
                            (case map_of (inherited obj) key of
                               Some cur \<Rightarrow> cur
                             | None \<Rightarrow> AUndefined)))
                  v,
                Retain (int (length (getData d)) - offset)],
             lengthDifference = 0\<rparr>"
  proof (cases "offset = 0")
    case True
    with a b open_marker show ?thesis
      unfolding cur [symmetric]
      by (simp add: newFromAttributeChange_def pushRetain_def pushReplaceElementAttribute_def
          new_transaction_def)
  next
    case False
    with a b open_marker show ?thesis
      unfolding cur [symmetric]
      by (simp add: newFromAttributeChange_def pushRetain_def pushReplaceElementAttribute_def
          new_transaction_def)
  qed
qed

theorem newFromAttributeChange_result_witness:
  "at (getData para_doc) 1 = Content ''a'' []
   \<and> newFromAttributeChange para_doc 1 ''style'' (AString ''x'') = Inl NotAnElement
   \<and> at (getData para_doc) 2 = Element (CHR ''/'' # ''paragraph'') None
   \<and> newFromAttributeChange para_doc 2 ''style'' (AString ''x'') = Inl ClosingElement
   \<and> at (getData two_paragraphs) 3 = Element ''paragraph'' None
   \<and> hd ''paragraph'' \<noteq> CHR ''/''
   \<and> newFromAttributeChange two_paragraphs 3 ''style'' (AString ''x'') =
       Inr \<lparr>operations = [Retain 3, Attribute ''style'' AUndefined (AString ''x''), Retain 4],
            lengthDifference = 0\<rparr>
   \<and> at (getData level_doc) 0 = Element ''heading'' (Some (plain_object [(''level'', ANumber 1)]))
   \<and> hd ''heading'' \<noteq> CHR ''/''
   \<and> newFromAttributeChange level_doc 0 ''level'' (ANumber 2) =
       Inr \<lparr>operations = [Attribute ''level'' (ANumber 1) (ANumber 2), Retain 3],
            lengthDifference = 0\<rparr>
   \<and> newFromAttributeChange level_doc 0 ''style'' (AString ''x'') =
       Inr \<lparr>operations = [Attribute ''style'' AUndefined (AString ''x''), Retain 3],
            lengthDifference = 0\<rparr>
   \<and> newFromAttributeChange level_doc 0 ''constructor'' (AString ''x'') =
       Inr \<lparr>operations = [Attribute ''constructor'' (AOther ''Object'') (AString ''x''), Retain 3],
            lengthDifference = 0\<rparr>"
proof -
  have items: "at (getData para_doc) 1 = Content ''a'' []"
    "at (getData para_doc) 2 = Element (CHR ''/'' # ''paragraph'') None"
    "at (getData two_paragraphs) 3 = Element ''paragraph'' None"
    "at (getData level_doc) 0 = Element ''heading'' (Some (plain_object [(''level'', ANumber 1)]))"
    by (simp_all add: para_doc_def two_paragraphs_def level_doc_def at_def)
  have lens: "int (length (getData two_paragraphs)) = 7" "int (length (getData level_doc)) = 3"
    by (simp_all add: two_paragraphs_def level_doc_def)
  from items(1)
    newFromAttributeChange_result [where d = para_doc and offset = 1 and c = "''a''"
      and anns = "[]" and key = "''style''" and v = "AString ''x''", THEN conjunct1]
  have 1: "newFromAttributeChange para_doc 1 ''style'' (AString ''x'') = Inl NotAnElement"
    by simp
  from items(2)
    newFromAttributeChange_result [where d = para_doc and offset = 2 and rest = "''paragraph''"
      and attrs = None and key = "''style''" and v = "AString ''x''",
      THEN conjunct2, THEN conjunct1]
  have 2: "newFromAttributeChange para_doc 2 ''style'' (AString ''x'') = Inl ClosingElement"
    by simp
  from items(3) lens
    newFromAttributeChange_result [where d = two_paragraphs and offset = 3
      and ty = "''paragraph''" and attrs = None and key = "''style''" and v = "AString ''x''",
      THEN conjunct2, THEN conjunct2]
  have 3: "newFromAttributeChange two_paragraphs 3 ''style'' (AString ''x'') =
       Inr \<lparr>operations = [Retain 3, Attribute ''style'' AUndefined (AString ''x''), Retain 4],
            lengthDifference = 0\<rparr>"
    by simp
  from items(4) lens
    newFromAttributeChange_result [where d = level_doc and offset = 0 and ty = "''heading''"
      and attrs = "Some (plain_object [(''level'', ANumber 1)])" and key = "''level''"
      and v = "ANumber 2", THEN conjunct2, THEN conjunct2]
  have 4: "newFromAttributeChange level_doc 0 ''level'' (ANumber 2) =
       Inr \<lparr>operations = [Attribute ''level'' (ANumber 1) (ANumber 2), Retain 3],
            lengthDifference = 0\<rparr>"
    by (simp add: plain_object_def object_prototype_def)
  from items(4) lens
    newFromAttributeChange_result [where d = level_doc and offset = 0 and ty = "''heading''"
      and attrs = "Some (plain_object [(''level'', ANumber 1)])" and key = "''style''"
      and v = "AString ''x''", THEN conjunct2, THEN conjunct2]
  have 5: "newFromAttributeChange level_doc 0 ''style'' (AString ''x'') =
       Inr \<lparr>operations = [Attribute ''style'' AUndefined (AString ''x''), Retain 3],
            lengthDifference = 0\<rparr>"
    by (simp add: plain_object_def object_prototype_def)
  from items(4) lens
    newFromAttributeChange_result [where d = level_doc and offset = 0 and ty = "''heading''"
      and attrs = "Some (plain_object [(''level'', ANumber 1)])" and key = "''constructor''"
      and v = "AString ''x''", THEN conjunct2, THEN conjunct2]
  have 6: "newFromAttributeChange level_doc 0 ''constructor'' (AString ''x'') =
       Inr \<lparr>operations = [Attribute ''constructor'' (AOther ''Object'') (AString ''x''), Retain 3],
            lengthDifference = 0\<rparr>"
    by (simp add: plain_object_def object_prototype_def)
  from items 1 2 3 4 5 6 show ?thesis by simp
qed

section \<open>Annotation\<close>

lemma wanted_eligible: "meth = ''set'' \<or> meth = ''clear'' \<Longrightarrow> wanted d meth ann = eligible d meth ann"
  by (auto simp: wanted_def eligible_def fun_eq_iff split: item.splits)

lemma close_span_ops:
  assumes "close_span m a (tx, span, on) = Inr (tx1, span1, on1)" "no_trailing_retain tx"
  shows "on1 = False \<and> lengthDifference tx1 = lengthDifference tx \<and> no_trailing_retain tx1
    \<and> (if on then operations tx1 = operations tx @ retain_op span @ [Annotate m Stop a] \<and> span1 = 0
        else tx1 = tx \<and> span1 = span)"
proof (cases on)
  case True
  with assms obtain tx2 where p: "pushRetain tx span = Inr tx2"
    and r: "tx1 = pushStopAnnotating tx2 m a" "span1 = 0" "on1 = False"
    by (auto simp: close_span_def bind_Inr_iff)
  from p have "0 \<le> span" by (rule pushRetain_Inr)
  with p assms(2) have "tx2 = tx\<lparr>operations := operations tx @ retain_op span\<rparr>"
    by (simp add: pushRetain_append)
  with r True show ?thesis by (simp add: pushStopAnnotating_def)
next
  case False
  with assms show ?thesis by (simp add: close_span_def)
qed

lemma open_span_ops:
  assumes "open_span m a (tx, span, on) = Inr (tx1, span1, on1)" "no_trailing_retain tx"
  shows "on1 = True \<and> lengthDifference tx1 = lengthDifference tx \<and> no_trailing_retain tx1
    \<and> (if \<not> on then operations tx1 = operations tx @ retain_op span @ [Annotate m Start a] \<and> span1 = 0
        else tx1 = tx \<and> span1 = span)"
proof (cases on)
  case False
  with assms obtain tx2 where p: "pushRetain tx span = Inr tx2"
    and r: "tx1 = pushStartAnnotating tx2 m a" "span1 = 0" "on1 = True"
    by (auto simp: open_span_def bind_Inr_iff)
  from p have "0 \<le> span" by (rule pushRetain_Inr)
  with p assms(2) have "tx2 = tx\<lparr>operations := operations tx @ retain_op span\<rparr>"
    by (simp add: pushRetain_append)
  with r False show ?thesis by (simp add: pushStartAnnotating_def)
next
  case True
  with assms show ?thesis by (simp add: open_span_def)
qed

lemma annotation_step_ops:
  assumes "annotation_step d m a i (tx, span, on) = Inr (tx1, span1, on1)" "no_trailing_retain tx"
  shows "on1 = wanted d m a i \<and> lengthDifference tx1 = lengthDifference tx \<and> no_trailing_retain tx1
    \<and> (if wanted d m a i = on then tx1 = tx \<and> span1 = span + 1
        else operations tx1 = operations tx @ retain_op span
               @ [Annotate m (if wanted d m a i then Start else Stop) a] \<and> span1 = 1)"
proof (cases "wanted d m a i")
  case True
  with assms(1) obtain s0 where "open_span m a (tx, span, on) = Inr (tx1, s0, on1)" "span1 = s0 + 1"
    by (auto simp: annotation_step_def wanted_def bind_Inr_iff Let_def split: item.splits if_splits)
  with open_span_ops [OF this(1) assms(2)] True show ?thesis by (auto split: if_splits)
next
  case False
  with assms(1) obtain s0 where "close_span m a (tx, span, on) = Inr (tx1, s0, on1)" "span1 = s0 + 1"
    by (auto simp: annotation_step_def wanted_def bind_Inr_iff Let_def split: item.splits if_splits)
  with close_span_ops [OF this(1) assms(2)] False show ?thesis by (auto split: if_splits)
qed


lemma annotation_finish_ops:
  assumes "annotation_finish data m a e (tx, span, on) = Inr tx'" "no_trailing_retain tx"
  shows "operations tx' = operations tx @ annotate_ops m a on span [] (int (length data) - e)
         \<and> lengthDifference tx' = lengthDifference tx"
proof -
  from assms(1) obtain tx2 where p: "pushRetain tx span = Inr tx2"
    and q: "pushRetain (if on then pushStopAnnotating tx2 m a else tx2) (int (length data) - e) = Inr tx'"
    by (auto simp: annotation_finish_def bind_Inr_iff)
  from p have s0: "0 \<le> span" by (rule pushRetain_Inr)
  from q have r0: "0 \<le> int (length data) - e" by (rule pushRetain_Inr)
  from p s0 assms(2) have tx2: "tx2 = tx\<lparr>operations := operations tx @ retain_op span\<rparr>"
    by (simp add: pushRetain_append)
  show ?thesis
  proof (cases on)
    case True
    have "no_trailing_retain (pushStopAnnotating tx2 m a)"
      by (simp add: pushStopAnnotating_def)
    from pushRetain_append [OF this r0] q True tx2 show ?thesis
      by (auto simp: pushStopAnnotating_def)
  next
    case False
    show ?thesis
    proof (cases "span = 0")
      case True
      with tx2 have "tx2 = tx" by (simp add: retain_op_def)
      with pushRetain_append [OF assms(2) r0] q False True show ?thesis by auto
    next
      case nz: False
      with q False tx2 s0 r0 show ?thesis
        by (auto simp: pushRetain_def retain_op_def split: if_splits)
    qed
  qed
qed

lemma annotation_loop_ops:
  "bind (annotation_loop d m a e i st) (annotation_finish (getData d) m a e) = Inr tx' \<Longrightarrow>
   no_trailing_retain (fst st) \<Longrightarrow>
   operations tx' = operations (fst st) @
       annotate_ops m a (snd (snd st)) (fst (snd st)) (map (wanted d m a) [i..e - 1])
         (int (length (getData d)) - e)
   \<and> lengthDifference tx' = lengthDifference (fst st)"
proof (induction d m a e i st rule: annotation_loop.induct)
  case (1 d m a e i st)
  obtain tx span on where st: "st = (tx, span, on)" by (cases st)
  show ?case
  proof (cases "i < e")
    case False
    then have "[i..e - 1] = []" by simp
    moreover from False "1.prems"(1) st have "annotation_finish (getData d) m a e (tx, span, on) = Inr tx'"
      by (subst (asm) annotation_loop.simps) simp
    ultimately show ?thesis
      using annotation_finish_ops [of "getData d" m a e tx span on tx'] "1.prems"(2) st by simp
  next
    case True
    with "1.prems"(1) obtain st1 where s: "annotation_step d m a i st = Inr st1"
      and l: "bind (annotation_loop d m a e (i + 1) st1) (annotation_finish (getData d) m a e) = Inr tx'"
      by (subst (asm) annotation_loop.simps) (auto split: sum.splits)
    obtain tx1 span1 on1 where st1: "st1 = (tx1, span1, on1)" by (cases st1)
    from s st st1 have s': "annotation_step d m a i (tx, span, on) = Inr (tx1, span1, on1)" by simp
    from "1.prems"(2) st have n: "no_trailing_retain tx" by simp
    note step = annotation_step_ops [OF s' n]
    from step st1 have n1: "no_trailing_retain (fst st1)" by simp
    note ih = "1.IH" [OF True s l n1]
    from True have up: "[i..e - 1] = i # [i + 1..e - 1]" by (simp add: upto_rec1)
    show ?thesis
    proof (cases "wanted d m a i = on")
      case True
      with step ih st st1 up show ?thesis by simp
    next
      case False
      with step ih st st1 up show ?thesis by auto
    qed
  qed
qed

lemma annotating_retain_op [simp]:
  "annotating on (retain_op n @ ops) = replicate (nat n) on @ annotating on ops"
  by (simp add: retain_op_def)

lemma annotating_retain_op_only: "annotating on (retain_op n) = replicate (nat n) on"
  by (simp add: retain_op_def)

lemma annotating_annotate_ops:
  "0 \<le> span \<Longrightarrow> 0 \<le> rest \<Longrightarrow>
   annotating on (annotate_ops m a on span fs rest) =
     replicate (nat span) on @ fs @ replicate (nat rest) False"
proof (induction fs arbitrary: on span)
  case Nil
  then show ?case
    by (auto simp: annotating_retain_op_only nat_add_distrib replicate_add)
next
  case (Cons f fs)
  show ?case
  proof (cases "f = on")
    case True
    with Cons.IH [of "span + 1" on] Cons.prems show ?thesis
      by (simp add: nat_add_distrib replicate_append_same)
  next
    case False
    with Cons.IH [of 1 f] Cons.prems show ?thesis
      by (cases f) auto
  qed
qed

lemma filter_retain_op [simp]:
  "filter is_start (retain_op n) = []" "filter is_stop (retain_op n) = []"
  by (simp_all add: retain_op_def)

lemma starts_annotate_ops:
  "length (filter is_start (annotate_ops m a on span fs rest)) = run_count on fs"
  by (induction fs arbitrary: on span) auto

lemma stops_annotate_ops:
  "length (filter is_stop (annotate_ops m a on span fs rest)) = run_count on fs + (if on then 1 else 0)"
  by (induction fs arbitrary: on span) auto

lemma newFromAnnotation_start_nonneg:
  assumes "newFromAnnotation d r m a = Inr tx"
  shows "0 \<le> start (normalize_range r) \<and> endpos (normalize_range r) \<le> int (length (getData d))"
proof -
  let ?s = "start (normalize_range r)" and ?e = "endpos (normalize_range r)"
  from assms obtain st where l: "annotation_loop d m a ?e ?s (new_transaction, ?s, False) = Inr st"
    and f: "annotation_finish (getData d) m a ?e st = Inr tx"
    by (auto simp: newFromAnnotation_def Let_def bind_Inr_iff)
  from f have e: "?e \<le> int (length (getData d))"
    by (cases st) (auto simp: annotation_finish_def bind_Inr_iff dest!: pushRetain_Inr)
  have "0 \<le> ?s"
  proof (cases "?s < ?e")
    case True
    with l obtain st1 where "annotation_step d m a ?s (new_transaction, ?s, False) = Inr st1"
      by (subst (asm) annotation_loop.simps) (auto split: sum.splits)
    then have "at (getData d) ?s \<noteq> Undefined"
      by (auto simp: annotation_step_def)
    then show ?thesis by (auto simp: at_def split: if_splits)
  next
    case False
    with l have "st = (new_transaction, ?s, False)"
      by (subst (asm) annotation_loop.simps) simp
    with f show ?thesis
      by (auto simp: annotation_finish_def bind_Inr_iff dest!: pushRetain_Inr)
  qed
  with e show ?thesis by simp
qed


text \<open>
  C8. In every transaction returned by \<open>newFromAnnotation(doc, range, method, annotation)\<close>
  with method \<open>set\<close> or \<open>clear\<close>, the items between a start and the next stop are exactly
  the eligible content of the range (for \<open>set\<close> content not carrying the annotation, for
  \<open>clear\<close> content carrying it), so no start/stop pair brackets an element marker, and
  there are as many start operations, and as many stop operations, as there are maximal
  runs of adjacent eligible content: each run is covered by exactly one pair. In
  particular, for five characters of content at the start of the data, none carrying the
  annotation, \<open>newFromAnnotation(doc, {0,5}, 'set', annotation)\<close> yields one start, one
  retain(5) and one stop, followed only by the retain of the data after the five
  characters, if there is any.
\<close>

theorem newFromAnnotation_spans:
  "(newFromAnnotation d r meth ann = Inr tx \<and> (meth = ''set'' \<or> meth = ''clear'') \<longrightarrow>
      annotating False (operations tx) =
        replicate (nat (start (normalize_range r))) False
        @ map (eligible d meth ann) [start (normalize_range r)..endpos (normalize_range r) - 1]
        @ replicate (nat (int (length (getData d)) - endpos (normalize_range r))) False
      \<and> length (filter is_start (operations tx)) =
          run_count False
            (map (eligible d meth ann) [start (normalize_range r)..endpos (normalize_range r) - 1])
      \<and> length (filter is_stop (operations tx)) =
          run_count False
            (map (eligible d meth ann) [start (normalize_range r)..endpos (normalize_range r) - 1])
      \<and> operations tx =
          annotate_ops meth ann False (start (normalize_range r))
            (map (eligible d meth ann) [start (normalize_range r)..endpos (normalize_range r) - 1])
            (int (length (getData d)) - endpos (normalize_range r)))
   \<and> (getData d = Content c0 a0 # Content c1 a1 # Content c2 a2 # Content c3 a3 # Content c4 a4 # rest
       \<and> \<not> offsetContainsAnnotation d 0 ann \<and> \<not> offsetContainsAnnotation d 1 ann
       \<and> \<not> offsetContainsAnnotation d 2 ann \<and> \<not> offsetContainsAnnotation d 3 ann
       \<and> \<not> offsetContainsAnnotation d 4 ann \<longrightarrow>
      newFromAnnotation d \<lparr>start = 0, endpos = 5\<rparr> ''set'' ann =
        Inr \<lparr>operations = [Annotate ''set'' Start ann, Retain 5, Annotate ''set'' Stop ann]
                            @ retain_op (int (length rest)),
             lengthDifference = 0\<rparr>)"
proof (intro conjI impI)
  assume h: "newFromAnnotation d r meth ann = Inr tx \<and> (meth = ''set'' \<or> meth = ''clear'')"
  let ?s = "start (normalize_range r)" and ?e = "endpos (normalize_range r)"
  let ?flags = "map (eligible d meth ann) [?s..?e - 1]"
  let ?rest = "int (length (getData d)) - ?e"
  from h have b: "0 \<le> ?s" "0 \<le> ?rest"
    using newFromAnnotation_start_nonneg [of d r meth ann tx] by simp_all
  from h have "bind (annotation_loop d meth ann ?e ?s (new_transaction, ?s, False))
                 (annotation_finish (getData d) meth ann ?e) = Inr tx"
    by (simp add: newFromAnnotation_def Let_def)
  from annotation_loop_ops [OF this] h
  show ops: "operations tx = annotate_ops meth ann False ?s ?flags ?rest"
    by (simp add: wanted_eligible new_transaction_def no_trailing_retain_def)
  from ops b show "annotating False (operations tx) =
      replicate (nat ?s) False @ ?flags @ replicate (nat ?rest) False"
    by (simp add: annotating_annotate_ops)
  from ops show "length (filter is_start (operations tx)) = run_count False ?flags"
    by (simp add: starts_annotate_ops)
  from ops show "length (filter is_stop (operations tx)) = run_count False ?flags"
    by (simp add: stops_annotate_ops)
next
  assume "getData d = Content c0 a0 # Content c1 a1 # Content c2 a2 # Content c3 a3 # Content c4 a4 # rest
       \<and> \<not> offsetContainsAnnotation d 0 ann \<and> \<not> offsetContainsAnnotation d 1 ann
       \<and> \<not> offsetContainsAnnotation d 2 ann \<and> \<not> offsetContainsAnnotation d 3 ann
       \<and> \<not> offsetContainsAnnotation d 4 ann"
  then show "newFromAnnotation d \<lparr>start = 0, endpos = 5\<rparr> ''set'' ann =
        Inr \<lparr>operations = [Annotate ''set'' Start ann, Retain 5, Annotate ''set'' Stop ann]
                            @ retain_op (int (length rest)),
             lengthDifference = 0\<rparr>"
    by (simp add: newFromAnnotation_def annotation_finish_def normalize_range_def
        annotation_loop.simps annotation_step_def close_span_def open_span_def at_def push_defs
        retain_op_def)
qed

theorem newFromAnnotation_spans_witness:
  "newFromAnnotation two_paragraphs \<lparr>start = 0, endpos = 5\<rparr> ''set'' (Annotation ''bold'') =
     Inr \<lparr>operations =
            [Retain 1, Annotate ''set'' Start (Annotation ''bold''), Retain 1,
             Annotate ''set'' Stop (Annotation ''bold''), Retain 2,
             Annotate ''set'' Start (Annotation ''bold''), Retain 1,
             Annotate ''set'' Stop (Annotation ''bold''), Retain 2],
          lengthDifference = 0\<rparr>
   \<and> annotating False
        [Retain 1, Annotate ''set'' Start (Annotation ''bold''), Retain 1,
         Annotate ''set'' Stop (Annotation ''bold''), Retain 2,
         Annotate ''set'' Start (Annotation ''bold''), Retain 1,
         Annotate ''set'' Stop (Annotation ''bold''), Retain 2]
       = [False, True, False, False, True, False, False]
   \<and> map (eligible two_paragraphs ''set'' (Annotation ''bold'')) [0..4]
       = [False, True, False, False, True]
   \<and> run_count False [False, True, False, False, True] = 2
   \<and> getData five_characters =
       [Content ''h'' [], Content ''e'' [], Content ''l'' [], Content ''l'' [], Content ''o'' []]
   \<and> \<not> offsetContainsAnnotation five_characters 0 (Annotation ''bold'')
   \<and> \<not> offsetContainsAnnotation five_characters 1 (Annotation ''bold'')
   \<and> \<not> offsetContainsAnnotation five_characters 2 (Annotation ''bold'')
   \<and> \<not> offsetContainsAnnotation five_characters 3 (Annotation ''bold'')
   \<and> \<not> offsetContainsAnnotation five_characters 4 (Annotation ''bold'')
   \<and> newFromAnnotation five_characters \<lparr>start = 0, endpos = 5\<rparr> ''set'' (Annotation ''bold'') =
       Inr \<lparr>operations = [Annotate ''set'' Start (Annotation ''bold''), Retain 5,
                           Annotate ''set'' Stop (Annotation ''bold'')],
            lengthDifference = 0\<rparr>"
proof -
  let ?b = "Annotation ''bold''"
  let ?ops = "[Retain 1, Annotate ''set'' Start ?b, Retain 1, Annotate ''set'' Stop ?b, Retain 2,
               Annotate ''set'' Start ?b, Retain 1, Annotate ''set'' Stop ?b, Retain 2]"
  have ev: "newFromAnnotation two_paragraphs \<lparr>start = 0, endpos = 5\<rparr> ''set'' ?b =
     Inr \<lparr>operations = ?ops, lengthDifference = 0\<rparr>"
    by (simp add: newFromAnnotation_def annotation_finish_def two_paragraphs_def
        normalize_range_def annotation_loop.simps annotation_step_def close_span_def
        open_span_def at_def push_defs)
  have fl: "map (eligible two_paragraphs ''set'' ?b) [0..4] = [False, True, False, False, True]"
    by (simp add: eligible_def two_paragraphs_def at_def upto_rec1)
  have rc: "run_count False [False, True, False, False, True] = 2"
    by simp
  have nr: "normalize_range \<lparr>start = 0, endpos = 5\<rparr> = \<lparr>start = 0, endpos = 5\<rparr>"
    by (simp add: normalize_range_def)
  have len: "int (length (getData two_paragraphs)) = 7"
    by (simp add: two_paragraphs_def)
  let ?r = "\<lparr>start = 0, endpos = 5\<rparr>"
  from newFromAnnotation_spans [where d = two_paragraphs and r = ?r
      and meth = "''set''" and ann = ?b and tx = "\<lparr>operations = ?ops, lengthDifference = 0\<rparr>"]
    ev
  have "annotating False (operations \<lparr>operations = ?ops, lengthDifference = 0\<rparr>) =
        replicate (nat (start (normalize_range ?r))) False
        @ map (eligible two_paragraphs ''set'' ?b) [start (normalize_range ?r)..endpos (normalize_range ?r) - 1]
        @ replicate (nat (int (length (getData two_paragraphs)) - endpos (normalize_range ?r))) False"
    by blast
  then have tr: "annotating False ?ops = [False, True, False, False, True, False, False]"
    by (simp add: nr len fl)
  have d5: "getData five_characters =
       [Content ''h'' [], Content ''e'' [], Content ''l'' [], Content ''l'' [], Content ''o'' []]"
    and nc: "\<And>i. \<not> offsetContainsAnnotation five_characters i ?b"
    by (simp_all add: five_characters_def)
  from newFromAnnotation_spans [where d = five_characters and ann = ?b and rest = "[]"
      and ?c0.0 = "''h''" and ?a0.0 = "[]" and ?c1.0 = "''e''" and ?a1.0 = "[]"
      and ?c2.0 = "''l''" and ?a2.0 = "[]" and ?c3.0 = "''l''" and ?a3.0 = "[]"
      and ?c4.0 = "''o''" and ?a4.0 = "[]"] d5 nc
  have five: "newFromAnnotation five_characters \<lparr>start = 0, endpos = 5\<rparr> ''set'' ?b =
       Inr \<lparr>operations = [Annotate ''set'' Start ?b, Retain 5, Annotate ''set'' Stop ?b],
            lengthDifference = 0\<rparr>"
    by (simp add: retain_op_def)
  from ev tr fl rc d5 nc five show ?thesis by simp
qed

section \<open>Transactions that keep the length\<close>

lemma lp_pushRetain: "pushRetain tx n = Inr tx' \<Longrightarrow> length_preserving tx \<Longrightarrow> length_preserving tx'"
  by (drule pushRetain_cases) (auto simp: length_preserving_def)

lemma lp_close: "close_span m a (tx, span, on) = Inr (tx', span', on') \<Longrightarrow> length_preserving tx \<Longrightarrow> length_preserving tx'"
  by (auto simp: close_span_def bind_Inr_iff pushStopAnnotating_def split: if_splits dest!: lp_pushRetain)
     (simp add: length_preserving_def)

lemma lp_open: "open_span m a (tx, span, on) = Inr (tx', span', on') \<Longrightarrow> length_preserving tx \<Longrightarrow> length_preserving tx'"
  by (auto simp: open_span_def bind_Inr_iff pushStartAnnotating_def split: if_splits dest!: lp_pushRetain)
     (simp add: length_preserving_def)

lemma lp_step: "annotation_step d m a i (tx, span, on) = Inr (tx', span', on') \<Longrightarrow> length_preserving tx \<Longrightarrow> length_preserving tx'"
  by (auto simp: annotation_step_def bind_Inr_iff Let_def split: item.splits if_splits dest: lp_close lp_open)

lemma lp_loop: "annotation_loop d m a e i st = Inr st' \<Longrightarrow> length_preserving (fst st) \<Longrightarrow> length_preserving (fst st')"
proof (induction d m a e i st rule: annotation_loop.induct)
  case (1 d m a e i st)
  show ?case
  proof (cases "i < e")
    case True
    with "1.prems" obtain st1 where s: "annotation_step d m a i st = Inr st1"
        and l: "annotation_loop d m a e (i + 1) st1 = Inr st'"
      by (subst (asm) annotation_loop.simps) (auto split: sum.splits)
    from s "1.prems"(2) have "length_preserving (fst st1)"
      by (cases st; cases st1) (auto dest: lp_step)
    with "1.IH" True s l show ?thesis by blast
  next
    case False
    with "1.prems" show ?thesis by (subst (asm) annotation_loop.simps) simp
  qed
qed

lemma lp_new: "length_preserving new_transaction"
  by (simp add: length_preserving_def new_transaction_def)

text \<open>
  C10. Every transaction returned by \<open>newFromAttributeChange\<close> or \<open>newFromAnnotation\<close>
  has no replace operation (only retain, attribute-change and annotate operations), and
  its \<open>lengthDifference\<close> is 0.
\<close>

theorem length_preserving_builders:
  "(newFromAttributeChange d offset key v = Inr tx \<longrightarrow> length_preserving tx)
   \<and> (newFromAnnotation d r m a = Inr tx \<longrightarrow> length_preserving tx)"
proof (intro conjI impI)
  assume "newFromAttributeChange d offset key v = Inr tx"
  then obtain ty attrs tx1 where "pushRetain new_transaction offset = Inr tx1"
    and "pushRetain (pushReplaceElementAttribute tx1 key (attribute_of attrs key) v)
           (int (length (getData d)) - offset) = Inr tx"
    by (auto simp: newFromAttributeChange_def Let_def bind_Inr_iff split: item.splits if_splits)
  then show "length_preserving tx"
    using lp_new by (auto dest!: lp_pushRetain simp: pushReplaceElementAttribute_def)
       (simp add: length_preserving_def)
next
  assume "newFromAnnotation d r m a = Inr tx"
  then obtain tx1 span on tx2 where
    l: "annotation_loop d m a (endpos (normalize_range r)) (start (normalize_range r))
          (new_transaction, start (normalize_range r), False) = Inr (tx1, span, on)"
    and p: "pushRetain tx1 span = Inr tx2"
    and q: "pushRetain (if on then pushStopAnnotating tx2 m a else tx2)
             (int (length (getData d)) - endpos (normalize_range r)) = Inr tx"
    by (auto simp: newFromAnnotation_def annotation_finish_def bind_Inr_iff Let_def)
  from lp_loop [OF l] lp_new have "length_preserving tx1" by simp
  with p have "length_preserving tx2" by (rule lp_pushRetain)
  then have "length_preserving (if on then pushStopAnnotating tx2 m a else tx2)"
    by (simp add: length_preserving_def pushStopAnnotating_def)
  with q show "length_preserving tx" by (rule lp_pushRetain)
qed


theorem length_preserving_builders_witness:
  "newFromAttributeChange two_paragraphs 3 ''style'' (AString ''x'') =
       Inr \<lparr>operations = [Retain 3, Attribute ''style'' AUndefined (AString ''x''), Retain 4],
            lengthDifference = 0\<rparr>
   \<and> length_preserving
        \<lparr>operations = [Retain 3, Attribute ''style'' AUndefined (AString ''x''), Retain 4],
         lengthDifference = 0\<rparr>
   \<and> newFromAnnotation two_paragraphs \<lparr>start = 4, endpos = 6\<rparr> ''set'' (Annotation ''bold'') =
       Inr \<lparr>operations = [Retain 4, Annotate ''set'' Start (Annotation ''bold''), Retain 2,
                           Annotate ''set'' Stop (Annotation ''bold''), Retain 1],
            lengthDifference = 0\<rparr>
   \<and> length_preserving
        \<lparr>operations = [Retain 4, Annotate ''set'' Start (Annotation ''bold''), Retain 2,
                       Annotate ''set'' Stop (Annotation ''bold''), Retain 1],
         lengthDifference = 0\<rparr>"
proof -
  have a: "newFromAttributeChange two_paragraphs 3 ''style'' (AString ''x'') =
       Inr \<lparr>operations = [Retain 3, Attribute ''style'' AUndefined (AString ''x''), Retain 4],
            lengthDifference = 0\<rparr>"
    by (simp add: newFromAttributeChange_def two_paragraphs_def at_def is_closing_def
        attribute_of_def push_defs)
  have b: "newFromAnnotation two_paragraphs \<lparr>start = 4, endpos = 6\<rparr> ''set'' (Annotation ''bold'') =
       Inr \<lparr>operations = [Retain 4, Annotate ''set'' Start (Annotation ''bold''), Retain 2,
                           Annotate ''set'' Stop (Annotation ''bold''), Retain 1],
            lengthDifference = 0\<rparr>"
    by (simp add: newFromAnnotation_def annotation_finish_def two_paragraphs_def
        normalize_range_def annotation_loop.simps annotation_step_def close_span_def
        open_span_def at_def push_defs)
  from a b
    length_preserving_builders [where d = two_paragraphs and offset = 3 and key = "''style''"
      and v = "AString ''x''"
      and tx = "\<lparr>operations = [Retain 3, Attribute ''style'' AUndefined (AString ''x''), Retain 4],
        lengthDifference = 0\<rparr>"]
    length_preserving_builders [where d = two_paragraphs
      and tx = "\<lparr>operations = [Retain 4, Annotate ''set'' Start (Annotation ''bold''), Retain 2,
                       Annotate ''set'' Stop (Annotation ''bold''), Retain 1],
        lengthDifference = 0\<rparr>"
      and r = "\<lparr>start = 4, endpos = 6\<rparr>" and m = "''set''" and a = "Annotation ''bold''"]
  show ?thesis by simp
qed

section \<open>Every transaction covers its document\<close>

lemma cl_pushRetain: "pushRetain tx n = Inr tx' \<Longrightarrow> covered_length tx' = covered_length tx + n"
  by (drule pushRetain_cases) (auto simp: covered_length_def)

lemma cl_pushReplace [simp]: "covered_length (pushReplace tx rem ins) = covered_length tx + int (length rem)"
  by (simp add: pushReplace_def covered_length_def)

lemma cl_attr [simp]: "covered_length (pushReplaceElementAttribute tx k f t) = covered_length tx"
  by (simp add: pushReplaceElementAttribute_def covered_length_def)

lemma cl_start [simp]: "covered_length (pushStartAnnotating tx m a) = covered_length tx"
  by (simp add: pushStartAnnotating_def covered_length_def)

lemma cl_stop [simp]: "covered_length (pushStopAnnotating tx m a) = covered_length tx"
  by (simp add: pushStopAnnotating_def covered_length_def)

lemma cl_new [simp]: "covered_length new_transaction = 0"
  by (simp add: new_transaction_def covered_length_def)

lemma removal_covered:
  assumes "bind (removal_loop data sel tx offset pending) (removal_finish data) = Inr tx'"
    and "0 \<le> offset"
    and "\<forall>s\<in>set sel. fst (removal_span s) \<le> snd (removal_span s)"
    and "case pending of None \<Rightarrow> True | Some (rs, re) \<Rightarrow> rs \<le> re"
  shows "covered_length tx' = covered_length tx + (int (length data) - offset)
         \<and> offset \<le> int (length data)"
  using assms
proof (induction sel arbitrary: tx offset pending)
  case Nil
  show ?case
  proof (cases pending)
    case None
    with Nil show ?thesis
      by (auto simp: removal_finish_def dest: cl_pushRetain pushRetain_Inr)
  next
    case (Some p)
    obtain rs re where p: "p = (rs, re)" by (cases p)
    from Nil Some p obtain tx1 where
      a: "pushRetain tx (rs - offset) = Inr tx1"
      and b: "pushRetain (pushReplace tx1 (slice data rs re) []) (int (length data) - re) = Inr tx'"
      by (auto simp: removal_finish_def bind_Inr_iff)
    from Nil Some p have le: "rs \<le> re" by simp
    from a have "offset \<le> rs" by (auto dest: pushRetain_Inr)
    moreover from b have "re \<le> int (length data)" by (auto dest: pushRetain_Inr)
    ultimately have "int (length (slice data rs re)) = re - rs" "offset \<le> int (length data)"
      using le Nil.prems(2) by (auto intro: length_slice)
    with cl_pushRetain [OF a] cl_pushRetain [OF b] show ?thesis by simp
  qed
next
  case (Cons s rest)
  obtain ns ne where sp: "removal_span s = (ns, ne)" by (cases "removal_span s")
  from Cons.prems(3) sp have ns: "ns \<le> ne" by auto
  from Cons.prems(3) have rest: "\<forall>s\<in>set rest. fst (removal_span s) \<le> snd (removal_span s)" by simp
  show ?case
  proof (cases pending)
    case None
    with Cons.prems(1) sp have
      "bind (removal_loop data rest tx offset (Some (ns, ne))) (removal_finish data) = Inr tx'"
      by simp
    from Cons.IH [OF this Cons.prems(2) rest] ns show ?thesis by simp
  next
    case (Some p)
    obtain rs re where p: "p = (rs, re)" by (cases p)
    from Cons.prems(4) Some p have le: "rs \<le> re" by simp
    show ?thesis
    proof (cases "re = ns")
      case True
      with Cons.prems(1) sp Some p have
        "bind (removal_loop data rest tx offset (Some (rs, ne))) (removal_finish data) = Inr tx'"
        by simp
      from Cons.IH [OF this Cons.prems(2) rest] True le ns show ?thesis by simp
    next
      case False
      with Cons.prems(1) sp Some p obtain tx1 where
        a: "pushRetain tx (rs - offset) = Inr tx1"
        and b: "bind (removal_loop data rest (pushReplace tx1 (slice data rs re) []) re (Some (ns, ne)))
                  (removal_finish data) = Inr tx'"
        by (auto split: sum.splits)
      from a have o: "offset \<le> rs" by (auto dest: pushRetain_Inr)
      with le Cons.prems(2) have re0: "0 \<le> re" by simp
      have ih: "covered_length tx' = covered_length (pushReplace tx1 (slice data rs re) []) + (int (length data) - re)"
        and re: "re \<le> int (length data)"
        using Cons.IH [OF b re0 rest] ns by simp_all
      have "int (length (slice data rs re)) = re - rs"
        using o le re Cons.prems(2) by (intro length_slice) auto
      with ih re o le cl_pushRetain [OF a] show ?thesis by simp
    qed
  qed
qed


lemma doc_order_spans: 
  assumes "in_document_order sel" shows "\<forall>s\<in>set sel. fst (removal_span s) \<le> snd (removal_span s)"
proof
  fix s assume "s \<in> set sel"
  with assms have "entry_ok s" by (simp add: in_document_order_def list_all_iff)
  then show "fst (removal_span s) \<le> snd (removal_span s)"
    by (auto simp: entry_ok_def removal_span_def split: option.splits)
qed

lemma entry_ok_bounds:
  assumes "entry_ok s"
  shows "start (nodeOuterRange s) \<le> endpos (nodeOuterRange s)"
    and "start (nodeOuterRange s) \<le> start (case range_s s of Some r \<Rightarrow> r | None \<Rightarrow> nodeRange s)"
    and "start (case range_s s of Some r \<Rightarrow> r | None \<Rightarrow> nodeRange s) \<le> endpos (case range_s s of Some r \<Rightarrow> r | None \<Rightarrow> nodeRange s)"
    and "endpos (case range_s s of Some r \<Rightarrow> r | None \<Rightarrow> nodeRange s) \<le> endpos (nodeOuterRange s)"
  using assms by (auto simp: entry_ok_def split: option.splits)

lemma doc_order_merge:
  assumes "in_document_order sel" "sel \<noteq> []"
  shows "fst (merge_span (hd sel) (last sel)) \<le> snd (merge_span (hd sel) (last sel))"
proof (cases sel)
  case Nil
  with assms show ?thesis by simp
next
  case (Cons x ys)
  with assms have x: "entry_ok x" by (simp add: in_document_order_def)
  show ?thesis
  proof (cases "ys = []")
    case True
    with Cons entry_ok_bounds [OF x] show ?thesis
      by (simp add: merge_span_def)
  next
    case False
    then have l: "last ys \<in> set ys" by simp
    with assms Cons have ok: "entry_ok (last ys)"
      by (simp add: in_document_order_def list_all_iff)
    from assms Cons l have "endpos (nodeOuterRange x) \<le> start (nodeOuterRange (last ys))"
      by (simp add: in_document_order_def)
    with Cons False entry_ok_bounds [OF x] entry_ok_bounds [OF ok] show ?thesis
      by (simp add: merge_span_def)
  qed
qed

lemma conversion_covered:
  assumes "bind (conversion_loop data opening closing sel tx previous)
             (\<lambda>(tx, previous). pushRetain tx (len - previous_end previous)) = Inr tx'"
    and "content_in_wrapped_branches sel"
  shows "covered_length tx' = covered_length tx + (len - previous_end previous)"
  using assms
proof (induction sel arbitrary: tx previous)
  case Nil
  then show ?case by (auto dest: cl_pushRetain)
next
  case (Cons s rest)
  from Cons.prems(2) have rest: "content_in_wrapped_branches rest"
    by (simp add: content_in_wrapped_branches_def)
  show ?case
  proof (cases "isContent (node s)")
    case False
    with Cons.prems(1) Cons.IH rest show ?thesis by simp
  next
    case True
    with Cons.prems(1) obtain b where b: "getParent (node s) = Some b"
      by (cases "getParent (node s)") auto
    with True Cons.prems(2) have w: "wrapped_branch b"
      by (simp add: content_in_wrapped_branches_def)
    show ?thesis
    proof (cases "case previous of None \<Rightarrow> False | Some (pb, pr) \<Rightarrow> node_id b = node_id pb")
      case True
      with \<open>isContent (node s)\<close> b Cons.prems(1) Cons.IH rest show ?thesis by simp
    next
      case False
      with \<open>isContent (node s)\<close> b Cons.prems(1) obtain tx1 tx2 where
        a: "pushRetain tx (start (getOuterRange b) - previous_end previous) = Inr tx1"
        and c: "pushRetain (pushReplace tx1 [at data (start (getOuterRange b))] [opening]) (getLength b) = Inr tx2"
        and r: "bind (conversion_loop data opening closing rest
                  (pushReplace tx2 [at data (endpos (getOuterRange b) - 1)] [closing])
                  (Some (b, getOuterRange b)))
                 (\<lambda>(tx, previous). pushRetain tx (len - previous_end previous)) = Inr tx'"
        by (auto simp: Let_def split: sum.splits)
      from Cons.IH [OF r rest] cl_pushRetain [OF a] cl_pushRetain [OF c] w
      show ?thesis by (simp add: previous_end_def wrapped_branch_def)
    qed
  qed
qed

lemma annotation_step_covered:
  assumes "annotation_step d m a i (tx, span, on) = Inr (tx', span', on')"
  shows "covered_length tx' + span' = covered_length tx + span + 1"
proof -
  have c: "\<And>st. close_span m a (tx, span, on) = Inr st \<Longrightarrow>
             covered_length (fst st) + fst (snd st) = covered_length tx + span"
    by (auto simp: close_span_def bind_Inr_iff split: if_splits dest: cl_pushRetain)
  have o: "\<And>st. open_span m a (tx, span, on) = Inr st \<Longrightarrow>
             covered_length (fst st) + fst (snd st) = covered_length tx + span"
    by (auto simp: open_span_def bind_Inr_iff split: if_splits dest: cl_pushRetain)
  from assms show ?thesis
    by (auto simp: annotation_step_def bind_Inr_iff Let_def split: item.splits if_splits dest!: c o)
qed

lemma annotation_loop_covered:
  "annotation_loop d m a e i st = Inr st' \<Longrightarrow> i \<le> e \<Longrightarrow>
     covered_length (fst st') + fst (snd st') = covered_length (fst st) + fst (snd st) + (e - i)"
proof (induction d m a e i st rule: annotation_loop.induct)
  case (1 d m a e i st)
  show ?case
  proof (cases "i < e")
    case True
    with "1.prems" obtain st1 where s: "annotation_step d m a i st = Inr st1"
        and l: "annotation_loop d m a e (i + 1) st1 = Inr st'"
      by (subst (asm) annotation_loop.simps) (auto split: sum.splits)
    from s have "covered_length (fst st1) + fst (snd st1) = covered_length (fst st) + fst (snd st) + 1"
      by (cases st; cases st1) (auto dest: annotation_step_covered)
    moreover from "1.IH" [OF True s l] True
    have "covered_length (fst st') + fst (snd st') = covered_length (fst st1) + fst (snd st1) + (e - (i + 1))"
      by simp
    ultimately show ?thesis by simp
  next
    case False
    with "1.prems" show ?thesis by (subst (asm) annotation_loop.simps) simp
  qed
qed

lemma normalize_range_le: "start (normalize_range r) \<le> endpos (normalize_range r)"
  by (simp add: normalize_range_def)

text \<open>
  C1. For every transaction built by a static builder (\<open>newFromInsertion\<close>,
  \<open>newFromRemoval\<close>, \<open>newFromAttributeChange\<close>, \<open>newFromAnnotation\<close>,
  \<open>newFromContentBranchConversion\<close>) against a document, the lengths of its retain
  operations plus the lengths of the \<open>remove\<close> arrays of its replace operations add up
  to the length of the document's data. The document's \<open>selectNodes\<close> is taken to return
  entries in document order (for the removal) and content nodes whose parent's outer range
  holds its two markers and its content (for the conversion).
\<close>

theorem covered_length_builders:
  "(newFromInsertion d offset insertion = Inr tx \<longrightarrow> covered_length tx = int (length (getData d)))
   \<and> (in_document_order (selectNodes d (normalize_range r) Covered) \<and> newFromRemoval d r = Inr tx
        \<longrightarrow> covered_length tx = int (length (getData d)))
   \<and> (newFromAttributeChange d offset key v = Inr tx \<longrightarrow> covered_length tx = int (length (getData d)))
   \<and> (newFromAnnotation d r meth ann = Inr tx \<longrightarrow> covered_length tx = int (length (getData d)))
   \<and> (content_in_wrapped_branches (selectNodes d r Leaves)
        \<and> newFromContentBranchConversion d r ty attr = Inr tx
        \<longrightarrow> covered_length tx = int (length (getData d)))"
proof (intro conjI impI)
  assume "newFromInsertion d offset insertion = Inr tx"
  then obtain tx1 where a: "pushRetain new_transaction offset = Inr tx1"
    and b: "pushRetain (pushReplace tx1 [] (fixupInsertion d insertion offset))
              (int (length (getData d)) - offset) = Inr tx"
    by (auto simp: newFromInsertion_def Let_def bind_Inr_iff)
  from cl_pushRetain [OF a] cl_pushRetain [OF b]
  show "covered_length tx = int (length (getData d))" by simp
next
  assume h: "in_document_order (selectNodes d (normalize_range r) Covered) \<and> newFromRemoval d r = Inr tx"
  let ?rng = "normalize_range r" and ?data = "getData d"
  let ?sel = "selectNodes d ?rng Covered"
  show "covered_length tx = int (length (getData d))"
  proof (cases "start ?rng = endpos ?rng")
    case True
    with h have "pushRetain new_transaction (int (length ?data)) = Inr tx"
      by (simp add: newFromRemoval_def Let_def)
    from cl_pushRetain [OF this] show ?thesis by simp
  next
    case False
    with h have ne: "?sel \<noteq> []" by (auto simp: newFromRemoval_def Let_def)
    show ?thesis
    proof (cases "canBeMergedWith d (node (hd ?sel)) (node (last ?sel))")
      case True
      obtain rs re where m: "merge_span (hd ?sel) (last ?sel) = (rs, re)"
        by (cases "merge_span (hd ?sel) (last ?sel)")
      with doc_order_merge [OF _ ne] h have le: "rs \<le> re" by simp
      from h False ne True m obtain tx1 where a: "pushRetain new_transaction rs = Inr tx1"
        and b: "pushRetain (pushReplace tx1 (slice ?data rs re) []) (int (length ?data) - re) = Inr tx"
        by (auto simp: newFromRemoval_def Let_def bind_Inr_iff)
      from a b have "0 \<le> rs" "re \<le> int (length ?data)" by (auto dest: pushRetain_Inr)
      with le have "int (length (slice ?data rs re)) = re - rs" by (intro length_slice)
      with cl_pushRetain [OF a] cl_pushRetain [OF b] show ?thesis by simp
    next
      case nm: False
      with h False ne have
        "bind (removal_loop ?data ?sel new_transaction 0 None) (removal_finish ?data) = Inr tx"
        by (simp add: newFromRemoval_def Let_def)
      moreover from h have "\<forall>s\<in>set ?sel. fst (removal_span s) \<le> snd (removal_span s)"
        by (intro doc_order_spans) simp
      ultimately show ?thesis using removal_covered [of ?data ?sel new_transaction 0 None tx] by simp
    qed
  qed
next
  assume "newFromAttributeChange d offset key v = Inr tx"
  then obtain ty attrs tx1 where a: "pushRetain new_transaction offset = Inr tx1"
    and b: "pushRetain (pushReplaceElementAttribute tx1 key (attribute_of attrs key) v)
           (int (length (getData d)) - offset) = Inr tx"
    by (auto simp: newFromAttributeChange_def Let_def bind_Inr_iff split: item.splits if_splits)
  from cl_pushRetain [OF a] cl_pushRetain [OF b]
  show "covered_length tx = int (length (getData d))" by simp
next
  assume "newFromAnnotation d r meth ann = Inr tx"
  then obtain tx1 span on tx2 where
    l: "annotation_loop d meth ann (endpos (normalize_range r)) (start (normalize_range r))
          (new_transaction, start (normalize_range r), False) = Inr (tx1, span, on)"
    and p: "pushRetain tx1 span = Inr tx2"
    and q: "pushRetain (if on then pushStopAnnotating tx2 meth ann else tx2)
             (int (length (getData d)) - endpos (normalize_range r)) = Inr tx"
    by (auto simp: newFromAnnotation_def annotation_finish_def bind_Inr_iff Let_def)
  from annotation_loop_covered [OF l normalize_range_le]
  have "covered_length tx1 + span = endpos (normalize_range r)" by simp
  with cl_pushRetain [OF p] cl_pushRetain [OF q]
  show "covered_length tx = int (length (getData d))" by (simp split: if_splits)
next
  assume h: "content_in_wrapped_branches (selectNodes d r Leaves)
        \<and> newFromContentBranchConversion d r ty attr = Inr tx"
  then have "bind (conversion_loop (getData d) (Element ty attr) (Element (CHR ''/'' # ty) None)
                 (selectNodes d r Leaves) new_transaction None)
             (\<lambda>(tx, previous). pushRetain tx (int (length (getData d)) - previous_end previous)) = Inr tx"
    by (simp add: newFromContentBranchConversion_def Let_def)
  from conversion_covered [OF this] h
  show "covered_length tx = int (length (getData d))" by (simp add: previous_end_def)
qed

theorem covered_length_builders_witness:
  "newFromInsertion two_paragraphs 4 [Content ''x'' []] =
     Inr \<lparr>operations = [Retain 4, Replace [] [Content ''x'' []], Retain 3], lengthDifference = 1\<rparr>
   \<and> covered_length
        \<lparr>operations = [Retain 4, Replace [] [Content ''x'' []], Retain 3], lengthDifference = 1\<rparr> = 7
   \<and> in_document_order (selectNodes two_paragraphs (normalize_range \<lparr>start = 0, endpos = 5\<rparr>) Covered)
   \<and> newFromRemoval two_paragraphs \<lparr>start = 0, endpos = 5\<rparr> =
     Inr \<lparr>operations =
            [Retain 1,
             Replace [Content ''a'' [], Element ''/paragraph'' None, Element ''paragraph'' None,
                      Content ''b'' []] [],
             Retain 2],
          lengthDifference = - 4\<rparr>
   \<and> covered_length
        \<lparr>operations =
            [Retain 1,
             Replace [Content ''a'' [], Element ''/paragraph'' None, Element ''paragraph'' None,
                      Content ''b'' []] [],
             Retain 2],
          lengthDifference = - 4\<rparr> = 7
   \<and> newFromAttributeChange two_paragraphs 3 ''style'' (AString ''x'') =
       Inr \<lparr>operations = [Retain 3, Attribute ''style'' AUndefined (AString ''x''), Retain 4],
            lengthDifference = 0\<rparr>
   \<and> covered_length
        \<lparr>operations = [Retain 3, Attribute ''style'' AUndefined (AString ''x''), Retain 4],
         lengthDifference = 0\<rparr> = 7
   \<and> newFromAnnotation two_paragraphs \<lparr>start = 4, endpos = 6\<rparr> ''set'' (Annotation ''bold'') =
       Inr \<lparr>operations = [Retain 4, Annotate ''set'' Start (Annotation ''bold''), Retain 2,
                           Annotate ''set'' Stop (Annotation ''bold''), Retain 1],
            lengthDifference = 0\<rparr>
   \<and> covered_length
        \<lparr>operations = [Retain 4, Annotate ''set'' Start (Annotation ''bold''), Retain 2,
                       Annotate ''set'' Stop (Annotation ''bold''), Retain 1],
         lengthDifference = 0\<rparr> = 7
   \<and> content_in_wrapped_branches (selectNodes two_paragraphs \<lparr>start = 0, endpos = 5\<rparr> Leaves)
   \<and> newFromContentBranchConversion two_paragraphs \<lparr>start = 0, endpos = 5\<rparr> ''heading'' None =
       Inr \<lparr>operations =
              [Replace [Element ''paragraph'' None] [Element ''heading'' None],
               Retain 1,
               Replace [Element ''/paragraph'' None] [Element ''/heading'' None],
               Replace [Element ''paragraph'' None] [Element ''heading'' None],
               Retain 2,
               Replace [Element ''/paragraph'' None] [Element ''/heading'' None]],
            lengthDifference = 0\<rparr>
   \<and> covered_length
        \<lparr>operations =
              [Replace [Element ''paragraph'' None] [Element ''heading'' None],
               Retain 1,
               Replace [Element ''/paragraph'' None] [Element ''/heading'' None],
               Replace [Element ''paragraph'' None] [Element ''heading'' None],
               Retain 2,
               Replace [Element ''/paragraph'' None] [Element ''/heading'' None]],
            lengthDifference = 0\<rparr> = 7"
proof -
  have len: "int (length (getData two_paragraphs)) = 7"
    by (simp add: two_paragraphs_def)
  have ins: "newFromInsertion two_paragraphs 4 [Content ''x'' []] =
     Inr \<lparr>operations = [Retain 4, Replace [] [Content ''x'' []], Retain 3], lengthDifference = 1\<rparr>"
    by (simp add: newFromInsertion_def two_paragraphs_def push_defs)
  have ord: "in_document_order (selectNodes two_paragraphs (normalize_range \<lparr>start = 0, endpos = 5\<rparr>) Covered)"
    by (simp add: two_paragraphs_def normalize_range_def in_document_order_def entry_ok_def)
  have rem: "newFromRemoval two_paragraphs \<lparr>start = 0, endpos = 5\<rparr> =
     Inr \<lparr>operations =
            [Retain 1,
             Replace [Content ''a'' [], Element ''/paragraph'' None, Element ''paragraph'' None,
                      Content ''b'' []] [],
             Retain 2],
          lengthDifference = - 4\<rparr>"
    by (simp add: newFromRemoval_def two_paragraphs_def normalize_range_def merge_span_def
        slice_def push_defs)
  have att: "newFromAttributeChange two_paragraphs 3 ''style'' (AString ''x'') =
       Inr \<lparr>operations = [Retain 3, Attribute ''style'' AUndefined (AString ''x''), Retain 4],
            lengthDifference = 0\<rparr>"
    by (simp add: newFromAttributeChange_def two_paragraphs_def at_def is_closing_def
        attribute_of_def push_defs)
  have ann: "newFromAnnotation two_paragraphs \<lparr>start = 4, endpos = 6\<rparr> ''set'' (Annotation ''bold'') =
       Inr \<lparr>operations = [Retain 4, Annotate ''set'' Start (Annotation ''bold''), Retain 2,
                           Annotate ''set'' Stop (Annotation ''bold''), Retain 1],
            lengthDifference = 0\<rparr>"
    by (simp add: newFromAnnotation_def annotation_finish_def two_paragraphs_def
        normalize_range_def annotation_loop.simps annotation_step_def close_span_def
        open_span_def at_def push_defs)
  have wr: "content_in_wrapped_branches (selectNodes two_paragraphs \<lparr>start = 0, endpos = 5\<rparr> Leaves)"
    by (simp add: two_paragraphs_defs content_in_wrapped_branches_def wrapped_branch_def)
  have conv: "newFromContentBranchConversion two_paragraphs \<lparr>start = 0, endpos = 5\<rparr> ''heading'' None =
       Inr \<lparr>operations =
              [Replace [Element ''paragraph'' None] [Element ''heading'' None],
               Retain 1,
               Replace [Element ''/paragraph'' None] [Element ''/heading'' None],
               Replace [Element ''paragraph'' None] [Element ''heading'' None],
               Retain 2,
               Replace [Element ''/paragraph'' None] [Element ''/heading'' None]],
            lengthDifference = 0\<rparr>"
    by (simp add: newFromContentBranchConversion_def two_paragraphs_defs previous_end_def
        at_def push_defs Let_def)
  note inst1 = covered_length_builders [where d = two_paragraphs and r = "\<lparr>start = 0, endpos = 5\<rparr>"
      and offset = 4 and insertion = "[Content ''x'' []]" and ty = "''heading''" and attr = None,
      unfolded len]
  note inst2 = covered_length_builders [where d = two_paragraphs and r = "\<lparr>start = 4, endpos = 6\<rparr>"
      and offset = 3 and key = "''style''" and v = "AString ''x''" and meth = "''set''"
      and ann = "Annotation ''bold''", unfolded len]
  from inst1 ins have 1: "covered_length
        \<lparr>operations = [Retain 4, Replace [] [Content ''x'' []], Retain 3], lengthDifference = 1\<rparr> = 7"
    by blast
  from inst1 ord rem have 2: "covered_length
        \<lparr>operations =
            [Retain 1,
             Replace [Content ''a'' [], Element ''/paragraph'' None, Element ''paragraph'' None,
                      Content ''b'' []] [],
             Retain 2],
          lengthDifference = - 4\<rparr> = 7"
    by blast
  from inst2 att have 3: "covered_length
        \<lparr>operations = [Retain 3, Attribute ''style'' AUndefined (AString ''x''), Retain 4],
         lengthDifference = 0\<rparr> = 7"
    by blast
  from inst2 ann have 4: "covered_length
        \<lparr>operations = [Retain 4, Annotate ''set'' Start (Annotation ''bold''), Retain 2,
                       Annotate ''set'' Stop (Annotation ''bold''), Retain 1],
         lengthDifference = 0\<rparr> = 7"
    by blast
  from inst1 wr conv have 5: "covered_length
        \<lparr>operations =
              [Replace [Element ''paragraph'' None] [Element ''heading'' None],
               Retain 1,
               Replace [Element ''/paragraph'' None] [Element ''/heading'' None],
               Replace [Element ''paragraph'' None] [Element ''heading'' None],
               Retain 2,
               Replace [Element ''/paragraph'' None] [Element ''/heading'' None]],
            lengthDifference = 0\<rparr> = 7"
    by blast
  from ins ord rem att ann wr conv 1 2 3 4 5 show ?thesis by blast
qed

end
